theory Spec2Isabelle
  imports Complex_Main "HOL-Library.Log_Nat"
begin

section \<open>Values exchanged with the engine\<close>

text \<open>
  The request body is deserialised JSON: \<open>matrix: List[List[Any]]\<close> in \<open>main.py\<close>,
  and \<open>matrix_data\<close> of \<open>MatrixEngine.__init__\<close>. A JSON number with a fraction or an
  exponent arrives as a Python float; it is kept as the pair \<open>(m, e)\<close> of its exact
  value \<open>m * 2^e\<close>. JSON has no literal for an infinity or a NaN, so only finite floats
  are inputs.
\<close>

datatype dbl = Dbl int int

datatype json =
    JNull
  | JBool bool
  | JInt int
  | JFloat dbl
  | JStr string
  | JList "json list"
  | JDict "(string \<times> json) list"

text \<open>The exact value of a finite float.\<close>

definition pow2 :: "int \<Rightarrow> rat" where
  "pow2 e = (if 0 \<le> e then 2 ^ nat e else 1 / 2 ^ nat (- e))"

fun dbl_value :: "dbl \<Rightarrow> rat" where
  "dbl_value (Dbl m e) = of_int m * pow2 e"

text \<open>
  The errors of \<open>matrix_engine.py\<close>. Every \<open>raise ValueError(...)\<close> of
  \<open>_validate_and_parse\<close> is one constructor, named after the error kind of the
  specification where it has one; the comment gives the message of the source.
\<close>

datatype validation_error =
    EmptyMatrix          \<comment> \<open>"Matrix cannot be empty"\<close>
  | NotAList             \<comment> \<open>"Matrix must be a 2D list"\<close>
  | RowsExceeded nat     \<comment> \<open>"Number of rows must be <= 5, got m"\<close>
  | RowNotAList          \<comment> \<open>"Each row must be a list"\<close>
  | ZeroColumns          \<comment> \<open>"Matrix cannot have zero columns"\<close>
  | ColsExceeded nat     \<comment> \<open>"Number of columns must be <= 5, got n"\<close>
  | NonRectangular       \<comment> \<open>"All rows must have the same number of columns"\<close>
  | InvalidEntry         \<comment> \<open>"Invalid numeric value in matrix: ..."\<close>

datatype error =
    ValueError validation_error
  | TypeError_unhashable   \<comment> \<open>"unhashable type: 'list'" (or \<open>'dict'\<close>)\<close>
  | OverflowError          \<comment> \<open>"int too large to convert to float"\<close>
  | KeyError               \<comment> \<open>a key that the cache no longer holds\<close>

section \<open>The matrix parser: \<open>MatrixEngine._validate_and_parse\<close>\<close>

definition MAX_DIMENSION :: nat where
  "MAX_DIMENSION = 5"

text \<open>Python truthiness, for \<open>if not self.raw_data\<close>.\<close>

fun truthy :: "json \<Rightarrow> bool" where
  "truthy JNull = False"
| "truthy (JBool b) = b"
| "truthy (JInt i) = (i \<noteq> 0)"
| "truthy (JFloat x) = (dbl_value x \<noteq> 0)"
| "truthy (JStr s) = (s \<noteq> [])"
| "truthy (JList xs) = (xs \<noteq> [])"
| "truthy (JDict kvs) = (kvs \<noteq> [])"

fun is_list :: "json \<Rightarrow> bool" where
  "is_list (JList xs) = True"
| "is_list v = False"

fun items :: "json \<Rightarrow> json list" where
  "items (JList xs) = xs"
| "items v = []"

text \<open>
  One entry (lines 94 to 101). The two conversions are SymPy's and are parameters of
  the parser: \<open>nsimplify\<close> stands for \<open>nsimplify(val, rational=True)\<close> on a float,
  \<open>Rational_str\<close> for \<open>Rational(val)\<close> on a string, \<open>None\<close> where it raises. A
  \<open>bool\<close> is an \<open>int\<close> in Python, so it takes the integer branch. \<open>Rational\<close> of
  \<open>None\<close>, a list or a dict raises \<open>TypeError\<close>, which the \<open>except Exception\<close> of
  line 105 turns into the \<open>ValueError\<close> of line 106.
\<close>

fun parse_entry :: "(dbl \<Rightarrow> rat) \<Rightarrow> (string \<Rightarrow> rat option) \<Rightarrow> json \<Rightarrow> error + rat" where
  "parse_entry nsimplify Rational_str (JFloat x) = Inr (nsimplify x)"
| "parse_entry nsimplify Rational_str (JInt i) = Inr (of_int i)"
| "parse_entry nsimplify Rational_str (JBool b) = Inr (if b then 1 else 0)"
| "parse_entry nsimplify Rational_str (JStr s) =
     (case Rational_str s of None \<Rightarrow> Inl (ValueError InvalidEntry) | Some q \<Rightarrow> Inr q)"
| "parse_entry nsimplify Rational_str v = Inl (ValueError InvalidEntry)"

text \<open>The two nested loops of lines 92 to 102: the first entry that raises ends the parse.\<close>

fun parse_row :: "(dbl \<Rightarrow> rat) \<Rightarrow> (string \<Rightarrow> rat option) \<Rightarrow> json list \<Rightarrow> error + rat list" where
  "parse_row nsimplify Rational_str [] = Inr []"
| "parse_row nsimplify Rational_str (v # vs) =
     (case parse_entry nsimplify Rational_str v of
        Inl e \<Rightarrow> Inl e
      | Inr q \<Rightarrow>
          (case parse_row nsimplify Rational_str vs of
             Inl e \<Rightarrow> Inl e
           | Inr qs \<Rightarrow> Inr (q # qs)))"

fun parse_rows :: "(dbl \<Rightarrow> rat) \<Rightarrow> (string \<Rightarrow> rat option) \<Rightarrow> json list \<Rightarrow> error + rat list list" where
  "parse_rows nsimplify Rational_str [] = Inr []"
| "parse_rows nsimplify Rational_str (r # rs) =
     (case parse_row nsimplify Rational_str (items r) of
        Inl e \<Rightarrow> Inl e
      | Inr qs \<Rightarrow>
          (case parse_rows nsimplify Rational_str rs of
             Inl e \<Rightarrow> Inl e
           | Inr qss \<Rightarrow> Inr (qs # qss)))"

text \<open>
  \<open>_validate_and_parse\<close>, check by check in the order of the source (lines 61 to 106).
  The second emptiness test (line 76) is kept although the first one makes it dead.
\<close>

definition validate_and_parse ::
  "(dbl \<Rightarrow> rat) \<Rightarrow> (string \<Rightarrow> rat option) \<Rightarrow> json \<Rightarrow> error + rat list list" where
  "validate_and_parse nsimplify Rational_str raw_data =
     (if \<not> truthy raw_data then Inl (ValueError EmptyMatrix)
      else if \<not> is_list raw_data then Inl (ValueError NotAList)
      else let m = length (items raw_data) in
        if m > MAX_DIMENSION then Inl (ValueError (RowsExceeded m))
        else if \<not> list_all is_list (items raw_data) then Inl (ValueError RowNotAList)
        else if length (items raw_data) = 0 then Inl (ValueError EmptyMatrix)
        else let n = length (items (hd (items raw_data))) in
          if n = 0 then Inl (ValueError ZeroColumns)
          else if n > MAX_DIMENSION then Inl (ValueError (ColsExceeded n))
          else if \<not> list_all (\<lambda>row. length (items row) = n) (items raw_data)
            then Inl (ValueError NonRectangular)
          else parse_rows nsimplify Rational_str (items raw_data))"

section \<open>Serialisation: \<open>sympy_to_python\<close>\<close>

text \<open>
  The objects \<open>sympy_to_python\<close> meets: Python's own values and SymPy numbers. A
  matrix entry is an exact rational \<open>Sym q\<close>; SymPy represents it as an \<open>Integer\<close>
  (\<open>is_Integer\<close>) when its denominator is 1 and as a \<open>Rational\<close> otherwise. A Python
  float is a finite double or an infinity.
\<close>

datatype pyfloat = Fin dbl | PosInf | NegInf

datatype pyobj =
    PyNone
  | PyBool bool
  | PyInt int
  | PyFloat pyfloat
  | PyStr string
  | PyList "pyobj list"
  | PyTuple "pyobj list"
  | PyDict "(pyobj \<times> pyobj) list"
  | Sym rat

definition is_Integer :: "rat \<Rightarrow> bool" where
  "is_Integer q = (snd (quotient_of q) = 1)"

subsection \<open>Conversion to a double\<close>

text \<open>
  \<open>float(obj)\<close> on a SymPy number rounds the exact value to 53 significant bits, ties
  to even, and hands mantissa and exponent to \<open>math.ldexp\<close>; a result too large for a
  double becomes an infinity, one below the normal range is rounded once more to a
  multiple of \<open>2^-1074\<close>. \<open>float(i)\<close> on a Python \<open>int\<close> rounds the same way and raises
  \<open>OverflowError\<close> when the result is too large.
\<close>

definition round_half_even :: "rat \<Rightarrow> int" where
  "round_half_even x =
     (let f = \<lfloor>x\<rfloor>; d = x - of_int f
      in if d < 1 / 2 then f else if 1 / 2 < d then f + 1 else if even f then f else f + 1)"

text \<open>For \<open>x > 0\<close>, the exponent \<open>e\<close> with \<open>2^e \<le> x < 2^(e+1)\<close>.\<close>

definition floor_log2 :: "rat \<Rightarrow> int" where
  "floor_log2 x =
     (let e0 = bitlen (fst (quotient_of x)) - bitlen (snd (quotient_of x))
      in if pow2 e0 \<le> x then e0 else e0 - 1)"

definition round53 :: "rat \<Rightarrow> int \<times> int" where
  "round53 x = (let e = floor_log2 x - 52 in (round_half_even (x / pow2 e), e))"

definition ldexp :: "int \<Rightarrow> int \<Rightarrow> pyfloat option" where
  "ldexp m e =
     (let v = of_int m * pow2 e
      in if pow2 1024 \<le> \<bar>v\<bar> then None
         else if \<bar>v\<bar> < pow2 (- 1022)
           then Some (Fin (Dbl (round_half_even (v / pow2 (- 1074))) (- 1074)))
         else Some (Fin (Dbl m e)))"

definition float_of_rat :: "rat \<Rightarrow> pyfloat" where
  "float_of_rat q =
     (if q = 0 then Fin (Dbl 0 0)
      else let (m, e) = round53 \<bar>q\<bar>
           in case ldexp (if q < 0 then - m else m) e of
                None \<Rightarrow> (if q < 0 then NegInf else PosInf)
              | Some x \<Rightarrow> x)"

definition float_of_int :: "int \<Rightarrow> error + pyfloat" where
  "float_of_int i =
     (if i = 0 then Inr (Fin (Dbl 0 0))
      else let (m, e) = round53 \<bar>of_int i\<bar>
           in case ldexp (if i < 0 then - m else m) e of
                None \<Rightarrow> Inl OverflowError
              | Some x \<Rightarrow> Inr x)"

subsection \<open>The memoised function\<close>

text \<open>
  \<open>sympy_to_python\<close> is wrapped in \<open>functools.lru_cache(maxsize=256)\<close> (line 10).
  On every call, the recursive ones included, the wrapper first hashes the key of the
  argument: a list or a dict has no hash, and a tuple has one only if all its items
  have, so such a call raises \<open>TypeError\<close> and the body does not run. Then it looks the
  key up among the results it remembers. If an earlier call had the same key, the
  result of that call is returned and the body does not run; otherwise the body runs
  and its result is remembered, the least recently used result being dropped once
  there are more than 256. A call that raises is not remembered.

  The remembered results are the state \<open>memo\<close>: pairs of an argument and the result
  computed for it, from the least recently used to the most recently used. Two
  arguments have the same key when Python finds the keys equal, with equal hashes
  (\<open>True\<close> and SymPy's \<open>Integer(1)\<close>, for instance). That comparison is Python's and
  SymPy's; it is the parameter \<open>key_eq\<close>.
\<close>

type_synonym memo = "(pyobj \<times> pyobj) list"

definition LRU_MAXSIZE :: nat where
  "LRU_MAXSIZE = 256"

fun hashable :: "pyobj \<Rightarrow> bool" where
  "hashable (PyList xs) = False"
| "hashable (PyDict kvs) = False"
| "hashable (PyTuple xs) = list_all hashable xs"
| "hashable v = True"

definition memo_lookup ::
  "(pyobj \<Rightarrow> pyobj \<Rightarrow> bool) \<Rightarrow> memo \<Rightarrow> pyobj \<Rightarrow> (pyobj \<times> pyobj) option" where
  "memo_lookup key_eq memo obj = find (\<lambda>e. key_eq (fst e) obj) memo"

text \<open>A hit makes the entry the most recently used one.\<close>

definition memo_hit :: "pyobj \<times> pyobj \<Rightarrow> memo \<Rightarrow> memo" where
  "memo_hit e memo = remove1 e memo @ [e]"

text \<open>
  After the body has returned: if a recursive call has remembered the same key in the
  meantime nothing is stored, otherwise the result is added and the oldest entries
  beyond the capacity are dropped.
\<close>

definition memo_store ::
  "(pyobj \<Rightarrow> pyobj \<Rightarrow> bool) \<Rightarrow> memo \<Rightarrow> pyobj \<Rightarrow> pyobj \<Rightarrow> memo" where
  "memo_store key_eq memo obj v =
     (if memo_lookup key_eq memo obj \<noteq> None then memo
      else drop (Suc (length memo) - LRU_MAXSIZE) (memo @ [(obj, v)]))"

text \<open>
  \<open>sympy_to_python\<close> is the wrapped function, the name every caller uses;
  \<open>sympy_to_python_body\<close> is the body of lines 16 to 34, each \<open>elif\<close> in order;
  \<open>sympy_to_python_items\<close> is the comprehension over the items of a list or tuple,
  \<open>sympy_to_python_values\<close> the one over the values of a dict. A Python \<open>bool\<close>, \<open>int\<close>
  or \<open>float\<close> has none of the SymPy attributes but has \<open>__float__\<close> (line 28); a
  \<open>str\<close> and \<open>None\<close> fall to the last branch.
\<close>

fun sympy_to_python ::
    "(pyobj \<Rightarrow> pyobj \<Rightarrow> bool) \<Rightarrow> memo \<Rightarrow> pyobj \<Rightarrow> (error + pyobj) \<times> memo"
  and sympy_to_python_body ::
    "(pyobj \<Rightarrow> pyobj \<Rightarrow> bool) \<Rightarrow> memo \<Rightarrow> pyobj \<Rightarrow> (error + pyobj) \<times> memo"
  and sympy_to_python_items ::
    "(pyobj \<Rightarrow> pyobj \<Rightarrow> bool) \<Rightarrow> memo \<Rightarrow> pyobj list \<Rightarrow> (error + pyobj list) \<times> memo"
  and sympy_to_python_values ::
    "(pyobj \<Rightarrow> pyobj \<Rightarrow> bool) \<Rightarrow> memo \<Rightarrow> (pyobj \<times> pyobj) list
       \<Rightarrow> (error + (pyobj \<times> pyobj) list) \<times> memo"
where
  "sympy_to_python key_eq memo obj =
     (if \<not> hashable obj then (Inl TypeError_unhashable, memo)
      else case memo_lookup key_eq memo obj of
        Some e \<Rightarrow> (Inr (snd e), memo_hit e memo)
      | None \<Rightarrow>
          (case sympy_to_python_body key_eq memo obj of
             (Inl err, memo') \<Rightarrow> (Inl err, memo')
           | (Inr v, memo') \<Rightarrow> (Inr v, memo_store key_eq memo' obj v)))"
| "sympy_to_python_body key_eq memo (PyList xs) =
     (case sympy_to_python_items key_eq memo xs of
        (Inl err, memo') \<Rightarrow> (Inl err, memo')
      | (Inr ys, memo') \<Rightarrow> (Inr (PyList ys), memo'))"
| "sympy_to_python_body key_eq memo (PyTuple xs) =
     (case sympy_to_python_items key_eq memo xs of
        (Inl err, memo') \<Rightarrow> (Inl err, memo')
      | (Inr ys, memo') \<Rightarrow> (Inr (PyTuple ys), memo'))"
| "sympy_to_python_body key_eq memo (PyDict kvs) =
     (case sympy_to_python_values key_eq memo kvs of
        (Inl err, memo') \<Rightarrow> (Inl err, memo')
      | (Inr kws, memo') \<Rightarrow> (Inr (PyDict kws), memo'))"
| "sympy_to_python_body key_eq memo (Sym q) =
     (if is_Integer q then (Inr (PyInt \<lfloor>q\<rfloor>), memo)
      else (Inr (PyFloat (float_of_rat q)), memo))"
| "sympy_to_python_body key_eq memo (PyBool b) =
     (Inr (PyFloat (Fin (Dbl (if b then 1 else 0) 0))), memo)"
| "sympy_to_python_body key_eq memo (PyInt i) =
     (case float_of_int i of
        Inl err \<Rightarrow> (Inl err, memo)
      | Inr x \<Rightarrow> (Inr (PyFloat x), memo))"
| "sympy_to_python_body key_eq memo (PyFloat x) = (Inr (PyFloat x), memo)"
| "sympy_to_python_body key_eq memo (PyStr s) = (Inr (PyStr s), memo)"
| "sympy_to_python_body key_eq memo PyNone = (Inr PyNone, memo)"
| "sympy_to_python_items key_eq memo [] = (Inr [], memo)"
| "sympy_to_python_items key_eq memo (x # xs) =
     (case sympy_to_python key_eq memo x of
        (Inl err, memo') \<Rightarrow> (Inl err, memo')
      | (Inr y, memo') \<Rightarrow>
          (case sympy_to_python_items key_eq memo' xs of
             (Inl err, memo'') \<Rightarrow> (Inl err, memo'')
           | (Inr ys, memo'') \<Rightarrow> (Inr (y # ys), memo'')))"
| "sympy_to_python_values key_eq memo [] = (Inr [], memo)"
| "sympy_to_python_values key_eq memo (kv # kvs) =
     (case sympy_to_python key_eq memo (snd kv) of
        (Inl err, memo') \<Rightarrow> (Inl err, memo')
      | (Inr w, memo') \<Rightarrow>
          (case sympy_to_python_values key_eq memo' kvs of
             (Inl err, memo'') \<Rightarrow> (Inl err, memo'')
           | (Inr kws, memo'') \<Rightarrow> (Inr ((fst kv, w) # kws), memo'')))"

text \<open>The exact value a serialised number stands for, where it has one.\<close>

fun py_value :: "pyobj \<Rightarrow> rat option" where
  "py_value (PyInt i) = Some (of_int i)"
| "py_value (PyFloat (Fin x)) = Some (dbl_value x)"
| "py_value v = None"

text \<open>
  The values a double can hold: \<open>m * 2^e\<close> with a mantissa of at most 53 bits, no
  exponent below that of the smallest subnormal, and a magnitude below \<open>2^1024\<close>.
\<close>

definition double_representable :: "rat \<Rightarrow> bool" where
  "double_representable q =
     (\<exists>m e. q = of_int m * pow2 e \<and> \<bar>m\<bar> < 2 ^ 53 \<and> - 1074 \<le> e \<and> \<bar>q\<bar> < pow2 1024)"

section \<open>The matrix operations\<close>

text \<open>
  A parsed matrix is the list of its rows. \<open>MatrixEngine\<close> hands every computation to
  SymPy's \<open>Matrix\<close> (\<open>rref\<close>, \<open>rank\<close>, \<open>columnspace\<close>, \<open>rowspace\<close>, \<open>nullspace\<close>,
  \<open>T\<close>), whose code is not part of the repository. The operations below are written
  from sections 4.2 and 4.3 of the specification.
\<close>

type_synonym matrix = "rat list list"

definition ncols :: "matrix \<Rightarrow> nat" where
  "ncols A = (case A of [] \<Rightarrow> 0 | row # rest \<Rightarrow> length row)"

text \<open>
  Modelled from the spec: the RREF Reducer (section 4.2), SymPy's \<open>Matrix.rref\<close>, is
  missing from the sources. Step 2: the first row at or below the cursor with a
  nonzero entry in the column.
\<close>

definition find_pivot :: "matrix \<Rightarrow> nat \<Rightarrow> nat \<Rightarrow> nat option" where
  "find_pivot A r c = find (\<lambda>i. A ! i ! c \<noteq> 0) [r..<length A]"

text \<open>Modelled from the spec: step 3, swap that row into the cursor position.\<close>

definition swap_rows :: "matrix \<Rightarrow> nat \<Rightarrow> nat \<Rightarrow> matrix" where
  "swap_rows A i j = A[i := A ! j, j := A ! i]"

text \<open>Modelled from the spec: step 3, divide every entry of the cursor row by the pivot value.\<close>

definition normalize_row :: "matrix \<Rightarrow> nat \<Rightarrow> nat \<Rightarrow> matrix" where
  "normalize_row A r c = A[r := map (\<lambda>x. x / (A ! r ! c)) (A ! r)]"

text \<open>
  Modelled from the spec: step 4, subtract from every other row, above and below, the
  multiple of the cursor row that clears its entry in the pivot column.
\<close>

definition eliminate :: "matrix \<Rightarrow> nat \<Rightarrow> nat \<Rightarrow> matrix" where
  "eliminate A r c =
     map (\<lambda>i. if i = r then A ! i
               else map2 (\<lambda>x y. x - (A ! i ! c) * y) (A ! i) (A ! r))
         [0..<length A]"

text \<open>
  Modelled from the spec: steps 1, 2, 5 and 6, the loop over the columns with the
  pivot-row cursor \<open>r\<close>; \<open>n\<close> is the number of columns, \<open>pivs\<close> the pivots recorded so far.
\<close>

function rref_loop :: "nat \<Rightarrow> matrix \<Rightarrow> nat \<Rightarrow> nat \<Rightarrow> nat list \<Rightarrow> matrix \<times> nat list" where
  "rref_loop n A r c pivs =
     (if c < n \<and> r < length A then
        (case find_pivot A r c of
           None \<Rightarrow> rref_loop n A r (c + 1) pivs
         | Some p \<Rightarrow>
             rref_loop n (eliminate (normalize_row (swap_rows A r p) r c) r c)
               (r + 1) (c + 1) (pivs @ [c]))
      else (A, pivs))"
  by pat_completeness auto
termination
  by (relation "measure (\<lambda>(n, A, r, c, pivs). n - c)") auto

text \<open>Modelled from the spec: \<open>Matrix.rref()\<close>, the reduced matrix and the ordered pivot list.\<close>

definition Matrix_rref :: "matrix \<Rightarrow> matrix \<times> nat list" where
  "Matrix_rref A = rref_loop (ncols A) A 0 0 []"

text \<open>Modelled from the spec: \<open>Matrix.rank()\<close>; section 4.2, "rank = length of that list".\<close>

definition Matrix_rank :: "matrix \<Rightarrow> nat" where
  "Matrix_rank A = length (snd (Matrix_rref A))"

text \<open>
  Modelled from the spec: \<open>Matrix.columnspace()\<close>; section 4.3, the columns of the
  original matrix at the pivot column indices, in pivot order.
\<close>

definition column :: "matrix \<Rightarrow> nat \<Rightarrow> rat list" where
  "column A j = map (\<lambda>row. row ! j) A"

definition Matrix_columnspace :: "matrix \<Rightarrow> rat list list" where
  "Matrix_columnspace A = map (column A) (snd (Matrix_rref A))"

text \<open>
  Modelled from the spec: \<open>Matrix.rowspace()\<close>; section 4.3, the first \<open>rank\<close> rows of
  the reduced matrix.
\<close>

definition Matrix_rowspace :: "matrix \<Rightarrow> rat list list" where
  "Matrix_rowspace A = take (Matrix_rank A) (fst (Matrix_rref A))"

text \<open>
  Modelled from the spec: \<open>Matrix.nullspace()\<close>; section 4.3, one vector for each free
  column \<open>f\<close> in increasing order: 1 at \<open>f\<close>, 0 at the other free columns, and at the
  \<open>i\<close>-th pivot column the negated entry of the reduced matrix in row \<open>i\<close>, column \<open>f\<close>.
\<close>

fun index_of :: "nat list \<Rightarrow> nat \<Rightarrow> nat" where
  "index_of [] j = 0"
| "index_of (p # ps) j = (if p = j then 0 else Suc (index_of ps j))"

definition Matrix_nullspace :: "matrix \<Rightarrow> rat list list" where
  "Matrix_nullspace A =
     (let R = fst (Matrix_rref A); pivs = snd (Matrix_rref A)
      in map (\<lambda>f. map (\<lambda>j. if j = f then 1
                             else if j \<in> set pivs then - (R ! index_of pivs j ! f)
                             else 0)
                       [0..<ncols A])
             (filter (\<lambda>j. j \<notin> set pivs) [0..<ncols A]))"

text \<open>\<open>Matrix.T\<close>, the transpose, and \<open>Matrix.shape\<close>.\<close>

definition Matrix_T :: "matrix \<Rightarrow> matrix" where
  "Matrix_T A = map (column A) [0..<ncols A]"

definition Matrix_shape :: "matrix \<Rightarrow> nat \<times> nat" where
  "Matrix_shape A = (length A, ncols A)"

text \<open>
  \<open>Matrix.tolist()\<close>: the rows as lists of SymPy numbers; a basis vector is a column
  matrix, so its \<open>tolist()\<close> has one entry per row.
\<close>

definition tolist :: "matrix \<Rightarrow> pyobj" where
  "tolist A = PyList (map (\<lambda>row. PyList (map Sym row)) A)"

definition column_matrix :: "rat list \<Rightarrow> matrix" where
  "column_matrix v = map (\<lambda>x. [x]) v"

section \<open>The engine: \<open>MatrixEngine\<close>\<close>

definition get_dimensions :: "matrix \<Rightarrow> nat \<times> nat" where
  "get_dimensions A = Matrix_shape A"

definition get_rank :: "matrix \<Rightarrow> nat" where
  "get_rank A = Matrix_rank A"

definition get_rref :: "matrix \<Rightarrow> matrix \<times> nat list" where
  "get_rref A = Matrix_rref A"

definition compute_column_space :: "matrix \<Rightarrow> rat list list" where
  "compute_column_space A = Matrix_columnspace A"

definition compute_row_space :: "matrix \<Rightarrow> rat list list" where
  "compute_row_space A = Matrix_rowspace A"

definition compute_null_space :: "matrix \<Rightarrow> rat list list" where
  "compute_null_space A = Matrix_nullspace A"

definition compute_left_null_space :: "matrix \<Rightarrow> rat list list" where
  "compute_left_null_space A = Matrix_nullspace (Matrix_T A)"

subsection \<open>The assembled result\<close>

text \<open>
  The dictionary \<open>compute_all_spaces\<close> returns, one record per nested dictionary
  (\<open>SpaceResult\<close> and \<open>ComputationResult\<close> of \<open>main.py\<close>). \<open>latex(M)\<close> is SymPy's
  printer; its string is kept as the term \<open>Latex M\<close>.
\<close>

datatype rendering = Latex matrix

record matrix_info =
  data :: pyobj
  rows :: nat
  cols :: nat
  latex :: rendering

record rref_info =
  rref_matrix :: pyobj
  rref_latex :: rendering
  pivots :: "nat list"

record space_result =
  basis :: pyobj
  basis_latex :: "rendering list"
  dimension :: nat
  description :: string

record dimension_info =
  rank_plus_nullity :: string
  rank_plus_left_nullity :: string
  valid :: bool

record computation_result =
  matrix :: matrix_info
  rank :: nat
  rref :: rref_info
  column_space :: space_result
  row_space :: space_result
  null_space :: space_result
  left_null_space :: space_result
  dimension_check :: dimension_info

text \<open>Decimal digits, for the f-strings.\<close>

fun str_nat :: "nat \<Rightarrow> string" where
  "str_nat n =
     (if n < 10 then [char_of (48 + n)]
      else str_nat (n div 10) @ [char_of (48 + n mod 10)])"

definition str_int :: "int \<Rightarrow> string" where
  "str_int i = (if i < 0 then CHR ''-'' # str_nat (nat (- i)) else str_nat (nat i))"

text \<open>The \<open>valid\<close> expression of lines 213 to 216, on Python's unbounded integers.\<close>

definition dimensions_valid :: "nat \<Rightarrow> nat \<Rightarrow> nat \<Rightarrow> nat \<Rightarrow> nat \<Rightarrow> nat \<Rightarrow> nat \<Rightarrow> bool" where
  "dimensions_valid m n rk dim_col dim_row dim_null dim_left =
     (dim_col = rk \<and> dim_row = rk
      \<and> int dim_null = int n - int rk \<and> int dim_left = int m - int rk)"

text \<open>One \<open>SpaceResult\<close> dictionary: lines 186 to 191, and the three after it.\<close>

definition space_entry ::
  "(pyobj \<Rightarrow> pyobj \<Rightarrow> bool) \<Rightarrow> memo \<Rightarrow> rat list list \<Rightarrow> nat
     \<Rightarrow> (error + space_result) \<times> memo" where
  "space_entry key_eq memo vs ambient =
     (case sympy_to_python key_eq memo (PyList (map (\<lambda>v. tolist (column_matrix v)) vs)) of
        (Inl e, memo') \<Rightarrow> (Inl e, memo')
      | (Inr b, memo') \<Rightarrow>
          (Inr \<lparr>basis = b,
                basis_latex = map (\<lambda>v. Latex (column_matrix v)) vs,
                dimension = length vs,
                description = ''Subspace of R^'' @ str_nat ambient\<rparr>,
           memo'))"

text \<open>
  \<open>compute_all_spaces\<close> (lines 164 to 218). Python evaluates the items of the
  dictionary display in the order written, so the first call that raises decides the
  outcome; the remembered results of \<open>sympy_to_python\<close> pass from each call to the next.
\<close>

definition compute_all_spaces ::
  "(pyobj \<Rightarrow> pyobj \<Rightarrow> bool) \<Rightarrow> memo \<Rightarrow> matrix \<Rightarrow> (error + computation_result) \<times> memo" where
  "compute_all_spaces key_eq memo A =
     (let m = fst (get_dimensions A); n = snd (get_dimensions A);
          rk = get_rank A;
          R = fst (get_rref A); pivs = snd (get_rref A);
          cs = compute_column_space A;
          rs = compute_row_space A;
          ns = compute_null_space A;
          ls = compute_left_null_space A
      in case sympy_to_python key_eq memo (tolist A) of
           (Inl e, memo1) \<Rightarrow> (Inl e, memo1) | (Inr d, memo1) \<Rightarrow>
        (case sympy_to_python key_eq memo1 (tolist R) of
           (Inl e, memo2) \<Rightarrow> (Inl e, memo2) | (Inr rd, memo2) \<Rightarrow>
        (case space_entry key_eq memo2 cs m of
           (Inl e, memo3) \<Rightarrow> (Inl e, memo3) | (Inr c_sp, memo3) \<Rightarrow>
        (case space_entry key_eq memo3 rs n of
           (Inl e, memo4) \<Rightarrow> (Inl e, memo4) | (Inr r_sp, memo4) \<Rightarrow>
        (case space_entry key_eq memo4 ns n of
           (Inl e, memo5) \<Rightarrow> (Inl e, memo5) | (Inr n_sp, memo5) \<Rightarrow>
        (case space_entry key_eq memo5 ls m of
           (Inl e, memo6) \<Rightarrow> (Inl e, memo6) | (Inr l_sp, memo6) \<Rightarrow>
           (Inr \<lparr>matrix = \<lparr>data = d, rows = m, cols = n, latex = Latex A\<rparr>,
                 rank = rk,
                 rref = \<lparr>rref_matrix = rd, rref_latex = Latex R, pivots = pivs\<rparr>,
                 column_space = c_sp,
                 row_space = r_sp,
                 null_space = n_sp,
                 left_null_space = l_sp,
                 dimension_check =
                   \<lparr>rank_plus_nullity =
                      str_nat rk @ '' + '' @ str_int (int n - int rk) @ '' = ''
                        @ str_nat n @ '' (columns)'',
                    rank_plus_left_nullity =
                      str_nat rk @ '' + '' @ str_int (int m - int rk) @ '' = ''
                        @ str_nat m @ '' (rows)'',
                    valid = dimensions_valid m n rk (length cs) (length rs)
                              (length ns) (length ls)\<rparr>\<rparr>,
            memo6)))))))"

text \<open>
  \<open>MatrixEngine(matrix_data).compute_all_spaces()\<close>: the constructor parses
  (line 57), then the method runs.
\<close>

definition engine_compute ::
  "(dbl \<Rightarrow> rat) \<Rightarrow> (string \<Rightarrow> rat option) \<Rightarrow> (pyobj \<Rightarrow> pyobj \<Rightarrow> bool) \<Rightarrow> memo \<Rightarrow> json
     \<Rightarrow> (error + computation_result) \<times> memo" where
  "engine_compute nsimplify Rational_str key_eq memo raw_data =
     (case validate_and_parse nsimplify Rational_str raw_data of
        Inl e \<Rightarrow> (Inl e, memo)
      | Inr A \<Rightarrow> compute_all_spaces key_eq memo A)"

section \<open>The computation cache and the request handler (\<open>main.py\<close>)\<close>

subsection \<open>The cache\<close>

text \<open>
  Modelled from the spec: the Computation Cache (sections 3 and 4.5),
  \<open>cachetools.TTLCache\<close> in \<open>main.py\<close>, is missing from the sources. An entry is
  a key, a value and its insertion time; the list is ordered from the least recently
  accessed entry to the most recently accessed one. The timer is read by the caller and
  passed in as \<open>now\<close>.
\<close>

record 'v ttl_cache =
  maxsize :: nat
  ttl :: nat
  entries :: "(string \<times> 'v \<times> nat) list"

text \<open>Modelled from the spec: "any entry older than the configured time-to-live".\<close>

definition expired :: "'v ttl_cache \<Rightarrow> nat \<Rightarrow> string \<times> 'v \<times> nat \<Rightarrow> bool" where
  "expired c now e = (snd (snd e) + ttl c < now)"

definition purge :: "'v ttl_cache \<Rightarrow> nat \<Rightarrow> 'v ttl_cache" where
  "purge c now = c\<lparr>entries := filter (\<lambda>e. \<not> expired c now e) (entries c)\<rparr>"

text \<open>
  Modelled from the spec: \<open>key in cache\<close>, a lookup that only answers; an expired entry
  "is treated as absent".
\<close>

definition cache_contains :: "'v ttl_cache \<Rightarrow> nat \<Rightarrow> string \<Rightarrow> bool" where
  "cache_contains c now k =
     (case find (\<lambda>e. fst e = k) (entries c) of
        None \<Rightarrow> False
      | Some e \<Rightarrow> \<not> expired c now e)"

text \<open>
  Modelled from the spec: \<open>cache[key]\<close>, \<open>lookup(fingerprint)\<close>: expired entries are
  purged, a hit becomes the most recently accessed entry, a miss is \<open>None\<close>.
\<close>

definition cache_getitem :: "'v ttl_cache \<Rightarrow> nat \<Rightarrow> string \<Rightarrow> 'v option \<times> 'v ttl_cache" where
  "cache_getitem c now k =
     (let c' = purge c now
      in case find (\<lambda>e. fst e = k) (entries c') of
           None \<Rightarrow> (None, c')
         | Some e \<Rightarrow>
             (Some (fst (snd e)),
              c'\<lparr>entries := filter (\<lambda>e'. fst e' \<noteq> k) (entries c') @ [e]\<rparr>))"

text \<open>
  Modelled from the spec: \<open>cache[key] = value\<close>, \<open>insert(fingerprint, result)\<close>: at most
  one entry per fingerprint, a later insert replaces the value and resets the timestamp,
  and the least recently accessed entries are evicted while the capacity is exceeded.
\<close>

definition cache_setitem :: "'v ttl_cache \<Rightarrow> nat \<Rightarrow> string \<Rightarrow> 'v \<Rightarrow> 'v ttl_cache" where
  "cache_setitem c now k v =
     (let c' = purge c now;
          es = filter (\<lambda>e. fst e \<noteq> k) (entries c') @ [(k, v, now)]
      in c'\<lparr>entries := drop (length es - maxsize c) es\<rparr>)"

text \<open>Modelled from the spec: \<open>clear()\<close> removes all entries unconditionally.\<close>

definition cache_clear :: "'v ttl_cache \<Rightarrow> 'v ttl_cache" where
  "cache_clear c = c\<lparr>entries := []\<rparr>"

subsection \<open>The handler\<close>

text \<open>
  Python dictionaries are objects: the cache holds a reference to the dictionary that
  the handler returns, and \<open>cached_result["cached"] = True\<close> writes into that object.
  The state therefore has a heap of response dictionaries, addressed by references, and
  the cache maps a key to a reference. A response is the dictionary of
  \<open>compute_all_spaces\<close> with the key \<open>cached\<close> the handler adds. The results that
  \<open>sympy_to_python\<close> remembers belong to the process as well: \<open>lru_memo\<close>.
\<close>

record response = computation_result +
  cached :: bool

record app_state =
  heap :: "nat \<Rightarrow> response option"
  next_ref :: nat
  computation_cache :: "nat ttl_cache"
  lru_memo :: memo

text \<open>
  The library functions the handler and the engine call: SymPy's two conversions,
  \<open>json.dumps(..., sort_keys=True)\<close>, \<open>hashlib.sha256(...).hexdigest()\<close>, and the
  comparison of the keys of \<open>lru_cache\<close>.
\<close>

record library =
  lib_nsimplify :: "dbl \<Rightarrow> rat"
  lib_Rational_str :: "string \<Rightarrow> rat option"
  lib_json_dumps :: "json \<Rightarrow> string"
  lib_sha256 :: "string \<Rightarrow> string"
  lib_key_eq :: "pyobj \<Rightarrow> pyobj \<Rightarrow> bool"

definition generate_cache_key :: "library \<Rightarrow> json \<Rightarrow> string" where
  "generate_cache_key lib matrix_data = lib_sha256 lib (lib_json_dumps lib matrix_data)"

text \<open>
  What a request ends with: the reference of the returned dictionary, or the
  \<open>HTTPException\<close> with its status code and the error it reports.
\<close>

datatype outcome = Returned nat | HTTPException nat error

definition with_cached :: "bool \<Rightarrow> computation_result \<Rightarrow> response" where
  "with_cached b r = computation_result.extend r (response.fields b)"

text \<open>
  The hit branch (lines 214 to 217): the stored reference is fetched, \<open>cached\<close> is set
  to \<open>True\<close> in the dictionary it points to, and the reference is returned. If the
  entry has expired since the membership test, \<open>computation_cache[cache_key]\<close> raises
  \<open>KeyError\<close>, which the \<open>except Exception\<close> of line 240 reports as status 500.
\<close>

definition compute_hit :: "nat \<Rightarrow> string \<Rightarrow> app_state \<Rightarrow> outcome \<times> app_state" where
  "compute_hit t_op cache_key st =
     (case cache_getitem (computation_cache st) t_op cache_key of
        (None, c') \<Rightarrow> (HTTPException 500 KeyError, st\<lparr>computation_cache := c'\<rparr>)
      | (Some ref, c') \<Rightarrow>
          (Returned ref,
           st\<lparr>computation_cache := c',
              heap := (heap st)(ref := map_option (\<lambda>r. r\<lparr>cached := True\<rparr>) (heap st ref))\<rparr>))"

text \<open>
  Lines 229 to 235: the dictionary of the engine is a new object; the handler adds
  \<open>cached = False\<close> to it, stores its reference in the cache and returns the reference.
\<close>

definition store_result ::
  "nat \<Rightarrow> string \<Rightarrow> computation_result \<Rightarrow> app_state \<Rightarrow> nat \<times> app_state" where
  "store_result t_op cache_key result st =
     (next_ref st,
      st\<lparr>heap := (heap st)(next_ref st \<mapsto> with_cached False result),
         next_ref := next_ref st + 1,
         computation_cache :=
           cache_setitem (computation_cache st) t_op cache_key (next_ref st)\<rparr>)"

text \<open>
  The miss branch (lines 219 to 242): a \<open>ValueError\<close> of the engine becomes status 400,
  any other exception status 500, and a result is stored and returned.
\<close>

definition compute_miss ::
  "library \<Rightarrow> nat \<Rightarrow> string \<Rightarrow> app_state \<Rightarrow> json \<Rightarrow> outcome \<times> app_state" where
  "compute_miss lib t_op cache_key st input_matrix =
     (case engine_compute (lib_nsimplify lib) (lib_Rational_str lib) (lib_key_eq lib)
             (lru_memo st) input_matrix of
        (Inl (ValueError e), memo') \<Rightarrow>
          (HTTPException 400 (ValueError e), st\<lparr>lru_memo := memo'\<rparr>)
      | (Inl e, memo') \<Rightarrow> (HTTPException 500 e, st\<lparr>lru_memo := memo'\<rparr>)
      | (Inr result, memo') \<Rightarrow>
          (Returned (fst (store_result t_op cache_key result (st\<lparr>lru_memo := memo'\<rparr>))),
           snd (store_result t_op cache_key result (st\<lparr>lru_memo := memo'\<rparr>))))"

text \<open>
  \<open>compute_subspaces\<close> (lines 208 to 242). The timer is read once by the membership
  test of line 213 (\<open>t_in\<close>) and once by the cache operation that follows (\<open>t_op\<close>).
\<close>

definition compute_subspaces ::
  "library \<Rightarrow> nat \<Rightarrow> nat \<Rightarrow> app_state \<Rightarrow> json \<Rightarrow> outcome \<times> app_state" where
  "compute_subspaces lib t_in t_op st input_matrix =
     (let cache_key = generate_cache_key lib input_matrix
      in if cache_contains (computation_cache st) t_in cache_key
         then compute_hit t_op cache_key st
         else compute_miss lib t_op cache_key st input_matrix)"

text \<open>\<open>clear_cache\<close> (lines 328 to 336).\<close>

definition clear_cache :: "app_state \<Rightarrow> app_state" where
  "clear_cache st = st\<lparr>computation_cache := cache_clear (computation_cache st)\<rparr>"



subsection \<open>Notions used to state the properties of the reduction\<close>

text \<open>
  A valid matrix is what the parser accepts: rectangular, between 1x1 and 5x5.
  \<open>is_matrix m n A\<close> fixes the shape; \<open>rref_inv\<close> is the invariant of the loop at
  cursor \<open>r\<close> and column \<open>c\<close>; \<open>is_rref\<close> is the reduced form with its pivot list.
\<close>

definition valid_matrix :: "matrix \<Rightarrow> bool" where
  "valid_matrix A =
     (1 \<le> length A \<and> length A \<le> MAX_DIMENSION \<and> 1 \<le> ncols A \<and> ncols A \<le> MAX_DIMENSION
      \<and> list_all (\<lambda>row. length row = ncols A) A)"


definition is_matrix :: "nat \<Rightarrow> nat \<Rightarrow> matrix \<Rightarrow> bool" where
  "is_matrix m n A = (length A = m \<and> (\<forall>i<m. length (A ! i) = n))"

definition rref_inv :: "nat \<Rightarrow> nat \<Rightarrow> matrix \<Rightarrow> nat \<Rightarrow> nat \<Rightarrow> nat list \<Rightarrow> bool" where
  "rref_inv m n A r c pivs =
     (is_matrix m n A \<and> length pivs = r \<and> r \<le> m \<and> c \<le> n
      \<and> sorted_wrt (<) pivs \<and> (\<forall>i<r. pivs ! i < c)
      \<and> (\<forall>i<r. \<forall>k<m. A ! k ! (pivs ! i) = (if k = i then 1 else 0))
      \<and> (\<forall>k<m. r \<le> k \<longrightarrow> (\<forall>j<c. A ! k ! j = 0))
      \<and> (\<forall>i<r. \<forall>j<pivs ! i. A ! i ! j = 0))"

definition is_rref :: "nat \<Rightarrow> nat \<Rightarrow> matrix \<Rightarrow> nat list \<Rightarrow> bool" where
  "is_rref m n R pivs =
     (is_matrix m n R \<and> length pivs \<le> m
      \<and> sorted_wrt (<) pivs \<and> (\<forall>i<length pivs. pivs ! i < n)
      \<and> (\<forall>i<length pivs. \<forall>k<m. R ! k ! (pivs ! i) = (if k = i then 1 else 0))
      \<and> (\<forall>k<m. length pivs \<le> k \<longrightarrow> (\<forall>j<n. R ! k ! j = 0))
      \<and> (\<forall>i<length pivs. \<forall>j<pivs ! i. R ! i ! j = 0))"

subsection \<open>Vectors, for counting dimensions\<close>

text \<open>
  Rows and columns as vectors of a real vector space (a vector is the function from
  the index to the entry, zero beyond the length of the row). The rank of the transpose
  is compared with the rank of the matrix through the span of such vectors.
\<close>

datatype vec = Vec "nat \<Rightarrow> real"

fun coord :: "vec \<Rightarrow> nat \<Rightarrow> real" where
  "coord (Vec f) j = f j"

instantiation vec :: real_vector
begin

definition zero_vec :: vec where "zero_vec = Vec (\<lambda>j. 0)"
definition plus_vec :: "vec \<Rightarrow> vec \<Rightarrow> vec" where "plus_vec u v = Vec (\<lambda>j. coord u j + coord v j)"
definition minus_vec :: "vec \<Rightarrow> vec \<Rightarrow> vec" where "minus_vec u v = Vec (\<lambda>j. coord u j - coord v j)"
definition uminus_vec :: "vec \<Rightarrow> vec" where "uminus_vec u = Vec (\<lambda>j. - coord u j)"
definition scaleR_vec :: "real \<Rightarrow> vec \<Rightarrow> vec" where "scaleR_vec a u = Vec (\<lambda>j. a * coord u j)"

instance
proof
  fix a b c :: vec and x y :: real
  show "a + b + c = a + (b + c)" by (simp add: plus_vec_def add.assoc)
  show "a + b = b + a" by (simp add: plus_vec_def add.commute)
  show "0 + a = a" by (cases a) (simp add: plus_vec_def zero_vec_def)
  show "- a + a = 0" by (simp add: plus_vec_def zero_vec_def uminus_vec_def)
  show "a - b = a + - b" by (simp add: plus_vec_def minus_vec_def uminus_vec_def)
  show "x *\<^sub>R (a + b) = x *\<^sub>R a + x *\<^sub>R b" by (simp add: plus_vec_def scaleR_vec_def algebra_simps)
  show "(x + y) *\<^sub>R a = x *\<^sub>R a + y *\<^sub>R a" by (simp add: plus_vec_def scaleR_vec_def algebra_simps)
  show "x *\<^sub>R y *\<^sub>R a = (x * y) *\<^sub>R a" by (simp add: scaleR_vec_def algebra_simps)
  show "1 *\<^sub>R a = a" by (cases a) (simp add: scaleR_vec_def)
qed

end

definition rowvec :: "rat list \<Rightarrow> vec" where
  "rowvec xs = Vec (\<lambda>j. if j < length xs then of_rat (xs ! j) else 0)"

definition rowvecs :: "matrix \<Rightarrow> vec set" where
  "rowvecs A = rowvec ` set A"

subsection \<open>Notions used to state the cache properties\<close>




text \<open>
  A concrete dictionary, library and state for the checks at concrete inputs:
  \<open>sample_result\<close> is the dictionary the assembly describes for the matrix \<open>[[1]]\<close>,
  and \<open>sample_key_eq\<close> finds an object equal to itself, \<open>True\<close> equal to \<open>Integer(1)\<close>
  and \<open>False\<close> equal to \<open>Integer(0)\<close>, as Python and SymPy do.
\<close>

definition sample_key_eq :: "pyobj \<Rightarrow> pyobj \<Rightarrow> bool" where
  "sample_key_eq a b =
     (a = b
      \<or> (a = PyBool True \<and> b = Sym 1) \<or> (a = Sym 1 \<and> b = PyBool True)
      \<or> (a = PyBool False \<and> b = Sym 0) \<or> (a = Sym 0 \<and> b = PyBool False))"

definition sample_result :: computation_result where
  "sample_result =
     \<lparr>matrix = \<lparr>data = PyList [PyList [PyInt 1]], rows = 1, cols = 1, latex = Latex [[1]]\<rparr>,
      rank = 1,
      rref = \<lparr>rref_matrix = PyList [PyList [PyInt 1]], rref_latex = Latex [[1]], pivots = [0]\<rparr>,
      column_space = \<lparr>basis = PyList [PyList [PyList [PyInt 1]]], basis_latex = [Latex [[1]]],
                        dimension = 1, description = ''Subspace of R^1''\<rparr>,
      row_space = \<lparr>basis = PyList [PyList [PyList [PyInt 1]]], basis_latex = [Latex [[1]]],
                     dimension = 1, description = ''Subspace of R^1''\<rparr>,
      null_space = \<lparr>basis = PyList [], basis_latex = [], dimension = 0,
                      description = ''Subspace of R^1''\<rparr>,
      left_null_space = \<lparr>basis = PyList [], basis_latex = [], dimension = 0,
                           description = ''Subspace of R^1''\<rparr>,
      dimension_check = \<lparr>rank_plus_nullity = ''1 + 0 = 1 (columns)'',
                           rank_plus_left_nullity = ''1 + 0 = 1 (rows)'', valid = True\<rparr>\<rparr>"

definition sample_library :: library where
  "sample_library =
     \<lparr>lib_nsimplify = dbl_value, lib_Rational_str = (\<lambda>s. None),
      lib_json_dumps = (\<lambda>j. ''[[1]]''), lib_sha256 = (\<lambda>s. s),
      lib_key_eq = sample_key_eq\<rparr>"

definition sample_state :: "(string \<times> nat \<times> nat) list \<Rightarrow> app_state" where
  "sample_state es =
     \<lparr>heap = (\<lambda>a. None)(0 \<mapsto> with_cached False sample_result), next_ref = 1,
      computation_cache = \<lparr>maxsize = 100, ttl = 3600, entries = es\<rparr>,
      lru_memo = []\<rparr>"

section \<open>Parser errors\<close>

text \<open>
  C9, as stated, fails: the input \<open>[[]]\<close> (a non-empty outer list whose first row is
  empty) is rejected with the message "Matrix cannot have zero columns", the
  \<open>ZeroColumns\<close> kind, not with \<open>EmptyMatrix\<close>.
\<close>

theorem first_row_empty_is_not_EmptyMatrix:
  "validate_and_parse (\<lambda>x. 0) (\<lambda>s. None) (JList [JList []]) = Inl (ValueError ZeroColumns)
   \<and> validate_and_parse (\<lambda>x. 0) (\<lambda>s. None) (JList [JList []]) \<noteq> Inl (ValueError EmptyMatrix)"
  by (simp add: validate_and_parse_def MAX_DIMENSION_def)

text \<open>
  C9, amended: an empty outer sequence fails with \<open>EmptyMatrix\<close>; an outer sequence of
  one to five rows, each of them a list, whose first row is empty fails with
  \<open>ZeroColumns\<close>.
\<close>

theorem empty_input_errors:
  "validate_and_parse nsimplify Rational_str (JList []) = Inl (ValueError EmptyMatrix)
   \<and> (length more_rows \<le> 4 \<and> list_all is_list more_rows \<longrightarrow>
        validate_and_parse nsimplify Rational_str (JList (JList [] # more_rows))
          = Inl (ValueError ZeroColumns))"
  by (simp add: validate_and_parse_def MAX_DIMENSION_def)

theorem empty_input_errors_witness:
  "length [JList [JInt 1]] \<le> 4 \<and> list_all is_list [JList [JInt 1]]
   \<and> validate_and_parse (\<lambda>x. 0) (\<lambda>s. None) (JList []) = Inl (ValueError EmptyMatrix)
   \<and> validate_and_parse (\<lambda>x. 0) (\<lambda>s. None) (JList (JList [] # [JList [JInt 1]]))
        = Inl (ValueError ZeroColumns)"
  using empty_input_errors [of "\<lambda>x. 0" "\<lambda>s. None" "[JList [JInt 1]]"]
  by simp

section \<open>Serialisation of the result\<close>

lemma is_Integer_of_int_floor: "is_Integer q \<Longrightarrow> of_int \<lfloor>q\<rfloor> = q"
proof -
  assume h: "is_Integer q"
  obtain n d where nd: "quotient_of q = (n, d)" by (cases "quotient_of q")
  with h have "d = 1" by (simp add: is_Integer_def)
  with nd have "q = of_int n" using quotient_of_div [OF nd] by simp
  then show ?thesis by simp
qed

text \<open>
  C1: the claim says that \<open>compute_all_spaces\<close> returns the assembled result for every
  valid matrix. The code does not: its first step serialises \<open>self.matrix.tolist()\<close>, a
  list, through the memoised \<open>sympy_to_python\<close>, and hashing a list raises
  \<open>TypeError\<close>. This holds for every matrix, whatever the memoised function
  remembers, so no input reaches the assembled result.
\<close>

theorem compute_all_spaces_raises:
  "compute_all_spaces key_eq memo A = (Inl TypeError_unhashable, memo)"
  by (simp add: compute_all_spaces_def tolist_def Let_def)

text \<open>The same at the valid input \<open>[[1]]\<close>, from the raw request value on.\<close>

lemma engine_compute_1x1:
  "validate_and_parse (\<lambda>x. 0) (\<lambda>s. None) (JList [JList [JInt 1]]) = Inr [[1]]
   \<and> engine_compute (\<lambda>x. 0) (\<lambda>s. None) sample_key_eq [] (JList [JList [JInt 1]])
       = (Inl TypeError_unhashable, [])"
  by (simp add: engine_compute_def validate_and_parse_def MAX_DIMENSION_def
      compute_all_spaces_def tolist_def Let_def)

subsection \<open>Rounding to a double\<close>

text \<open>Powers of two.\<close>

lemma pow2_powi: "pow2 e = 2 powi e"
  by (simp add: pow2_def power_int_def inverse_eq_divide power_one_over)

lemma pow2_pos [simp]: "0 < pow2 e"
  by (simp add: pow2_powi)

lemma pow2_nonzero [simp]: "pow2 e \<noteq> 0"
  by (simp add: pow2_powi)

lemma pow2_nonneg [simp]: "0 \<le> pow2 e"
  by (rule less_imp_le) simp

lemma pow2_abs [simp]: "\<bar>pow2 e\<bar> = pow2 e"
  by (rule abs_of_pos) simp

lemma pow2_add: "pow2 (a + b) = pow2 a * pow2 b"
  by (simp add: pow2_powi power_int_add)

lemma pow2_diff: "pow2 (a - b) = pow2 a / pow2 b"
  by (simp add: pow2_powi power_int_diff)

lemma pow2_less_iff [simp]: "pow2 a < pow2 b \<longleftrightarrow> a < b"
proof
  assume "a < b"
  then show "pow2 a < pow2 b" by (simp add: pow2_powi power_int_strict_increasing)
next
  assume h: "pow2 a < pow2 b"
  show "a < b"
  proof (rule ccontr)
    assume "\<not> a < b"
    then have "b \<le> a" by simp
    then have "pow2 b \<le> pow2 a" by (simp add: pow2_powi power_int_increasing)
    with h show False by simp
  qed
qed

lemma pow2_le_iff [simp]: "pow2 a \<le> pow2 b \<longleftrightarrow> a \<le> b"
  using pow2_less_iff [of b a] by (simp only: not_less [symmetric])

lemma pow2_0 [simp]: "pow2 0 = 1"
  by (simp add: pow2_def)

lemma pow2_of_nat: "0 \<le> e \<Longrightarrow> pow2 e = of_int (2 ^ nat e)"
  by (simp add: pow2_def)

lemma floor_log2_bounds:
  assumes "0 < x"
  shows "pow2 (floor_log2 x) \<le> x \<and> x < pow2 (floor_log2 x + 1)"
proof -
  obtain n d where nd: "quotient_of x = (n, d)" by (cases "quotient_of x")
  have d: "0 < d" using quotient_of_denom_pos [OF nd] .
  have x: "x = of_int n / of_int d" using quotient_of_div [OF nd] .
  have n: "0 < n" using assms d x by (simp add: zero_less_divide_iff)
  have bn: "0 < bitlen n" "0 < bitlen d"
    using n d bitlen_nonneg [of "n div 2"] bitlen_nonneg [of "d div 2"]
      compute_bitlen [of n] compute_bitlen [of d] by simp_all
  from bitlen_bounds [OF n] have
    n1: "(2::int) ^ nat (bitlen n - 1) \<le> n" and n2: "n < 2 ^ nat (bitlen n)" by auto
  from bitlen_bounds [OF d] have
    d1: "(2::int) ^ nat (bitlen d - 1) \<le> d" and d2: "d < 2 ^ nat (bitlen d)" by auto
  have N1: "pow2 (bitlen n - 1) \<le> of_int n"
  proof -
    have "rat_of_int (2 ^ nat (bitlen n - 1)) \<le> of_int n" using n1 by (simp only: of_int_le_iff)
    then show ?thesis using bn by (simp add: pow2_of_nat)
  qed
  have N2: "of_int n < pow2 (bitlen n)"
  proof -
    have "rat_of_int n < of_int (2 ^ nat (bitlen n))" using n2 by (simp only: of_int_less_iff)
    then show ?thesis using bn by (simp add: pow2_of_nat)
  qed
  have D1: "pow2 (bitlen d - 1) \<le> of_int d"
  proof -
    have "rat_of_int (2 ^ nat (bitlen d - 1)) \<le> of_int d" using d1 by (simp only: of_int_le_iff)
    then show ?thesis using bn by (simp add: pow2_of_nat)
  qed
  have D2: "of_int d < pow2 (bitlen d)"
  proof -
    have "rat_of_int d < of_int (2 ^ nat (bitlen d))" using d2 by (simp only: of_int_less_iff)
    then show ?thesis using bn by (simp add: pow2_of_nat)
  qed
  define e0 where "e0 = bitlen n - bitlen d"
  have dq: "(0::rat) < of_int d" using d by simp
  have up: "x < pow2 (e0 + 1)"
  proof -
    have "of_int n < pow2 (e0 + 1) * pow2 (bitlen d - 1)"
      using N2 by (simp add: e0_def flip: pow2_add)
    also have "\<dots> \<le> pow2 (e0 + 1) * of_int d"
      using D1 by (simp add: mult_left_mono)
    finally show ?thesis using dq by (simp add: x pos_divide_less_eq)
  qed
  have lo: "pow2 (e0 - 1) \<le> x"
  proof -
    have "pow2 (e0 - 1) * of_int d \<le> pow2 (e0 - 1) * pow2 (bitlen d)"
      using D2 by (simp add: mult_left_mono)
    also have "\<dots> = pow2 (bitlen n - 1)" by (simp add: e0_def flip: pow2_add)
    also have "\<dots> \<le> of_int n" by (rule N1)
    finally show ?thesis using dq by (simp add: x pos_le_divide_eq)
  qed
  have fl: "floor_log2 x = (if pow2 e0 \<le> x then e0 else e0 - 1)"
    by (simp add: floor_log2_def nd e0_def Let_def)
  show ?thesis
  proof (cases "pow2 e0 \<le> x")
    case True
    with fl up show ?thesis by simp
  next
    case False
    with fl lo show ?thesis by simp
  qed
qed

lemma round_half_even_of_int [simp]: "round_half_even (of_int k) = k"
  by (simp add: round_half_even_def)

lemma round_half_even_err: "\<bar>of_int (round_half_even x) - x\<bar> \<le> 1 / 2"
proof -
  have f: "of_int \<lfloor>x\<rfloor> \<le> x" "x < of_int \<lfloor>x\<rfloor> + 1" by linarith+
  consider "x - of_int \<lfloor>x\<rfloor> < 1 / 2" | "1 / 2 < x - of_int \<lfloor>x\<rfloor>"
    | "x - of_int \<lfloor>x\<rfloor> = 1 / 2" by linarith
  then show ?thesis
  proof cases
    case 1
    then have "round_half_even x = \<lfloor>x\<rfloor>" by (simp add: round_half_even_def Let_def)
    with f 1 show ?thesis by simp
  next
    case 2
    then have "round_half_even x = \<lfloor>x\<rfloor> + 1" by (simp add: round_half_even_def Let_def)
    with f 2 show ?thesis by simp
  next
    case 3
    then have "round_half_even x = \<lfloor>x\<rfloor> \<or> round_half_even x = \<lfloor>x\<rfloor> + 1"
      by (simp add: round_half_even_def Let_def)
    with f 3 show ?thesis by auto
  qed
qed

lemma round_half_even_ge: "of_int a \<le> x \<Longrightarrow> a \<le> round_half_even x"
proof -
  assume "of_int a \<le> x"
  then have "a \<le> \<lfloor>x\<rfloor>" by (simp add: le_floor_iff)
  then show ?thesis by (auto simp: round_half_even_def Let_def)
qed

lemma round_half_even_le: "x \<le> of_int b \<Longrightarrow> round_half_even x \<le> b"
proof -
  assume h: "x \<le> of_int b"
  show ?thesis
  proof (cases "x = of_int b")
    case True
    then show ?thesis by simp
  next
    case False
    with h have "x < of_int b" by simp
    then have "\<lfloor>x\<rfloor> < b" by (simp add: floor_less_iff)
    then show ?thesis by (auto simp: round_half_even_def Let_def)
  qed
qed

text \<open>The mantissa and the exponent that \<open>round53\<close> returns.\<close>

lemma round53_facts:
  assumes "0 < x" "round53 x = (M, e)"
  shows "e = floor_log2 x - 52" "2 ^ 52 \<le> M" "M \<le> 2 ^ 53"
    "\<bar>of_int M * pow2 e - x\<bar> \<le> pow2 e / 2"
proof -
  from assms(2) have e: "e = floor_log2 x - 52" and M: "M = round_half_even (x / pow2 e)"
    by (auto simp: round53_def Let_def)
  show "e = floor_log2 x - 52" by (rule e)
  from floor_log2_bounds [OF assms(1)] have
    b1: "pow2 (e + 52) \<le> x" and b2: "x < pow2 (e + 53)"
    by (simp_all add: e add.commute)
  have "pow2 52 \<le> x / pow2 e" using b1 by (simp add: pow2_add pos_le_divide_eq mult.commute)
  then have "of_int (2 ^ 52) \<le> x / pow2 e" by (simp add: pow2_def)
  from round_half_even_ge [OF this] show "2 ^ 52 \<le> M" by (simp add: M)
  have "x / pow2 e \<le> pow2 53" using b2 by (simp add: pow2_add pos_divide_le_eq mult.commute)
  then have "x / pow2 e \<le> of_int (2 ^ 53)" by (simp add: pow2_def)
  from round_half_even_le [OF this] show "M \<le> 2 ^ 53" by (simp add: M)
  have "of_int M * pow2 e - x = (of_int M - x / pow2 e) * pow2 e"
    by (simp add: left_diff_distrib)
  then have "\<bar>of_int M * pow2 e - x\<bar> = \<bar>of_int M - x / pow2 e\<bar> * \<bar>pow2 e\<bar>"
    by (simp only: abs_mult)
  also have "\<dots> = \<bar>of_int M - x / pow2 e\<bar> * pow2 e" by simp
  also have "\<dots> \<le> 1 / 2 * pow2 e"
    using round_half_even_err [of "x / pow2 e"] by (intro mult_right_mono) (simp_all add: M)
  finally show "\<bar>of_int M * pow2 e - x\<bar> \<le> pow2 e / 2" by simp
qed

text \<open>\<open>float_of_rat\<close> away from zero, with the overflow test and the subnormal range.\<close>

lemma float_of_rat_nonzero:
  assumes "q \<noteq> 0" "round53 \<bar>q\<bar> = (M, e)"
  shows "float_of_rat q =
     (if pow2 1024 \<le> of_int M * pow2 e then (if q < 0 then NegInf else PosInf)
      else if of_int M * pow2 e < pow2 (- 1022)
        then Fin (Dbl (round_half_even (of_int (if q < 0 then - M else M) * pow2 e / pow2 (- 1074)))
               (- 1074))
      else Fin (Dbl (if q < 0 then - M else M) e))"
proof -
  have x: "0 < \<bar>q\<bar>" using assms(1) by simp
  from round53_facts(2) [OF x assms(2)] have M: "0 < M" by simp
  then have a: "\<bar>of_int M * pow2 e\<bar> = (of_int M * pow2 e :: rat)"
    by (simp add: abs_mult)
  have b: "\<bar>of_int (- M) * pow2 e\<bar> = (of_int M * pow2 e :: rat)"
    using M by (simp add: abs_mult)
  show ?thesis
  proof (cases "q < 0")
    case True
    then show ?thesis using assms b
      by (simp add: float_of_rat_def ldexp_def Let_def del: of_int_minus)
  next
    case False
    then show ?thesis using assms a
      by (simp add: float_of_rat_def ldexp_def Let_def)
  qed
qed

text \<open>The value float(q) stands for, with the sign taken out.\<close>

lemma signed_value:
  "of_int (if q < 0 then - M else M) * pow2 e = (if q < (0::rat) then - 1 else 1) * (of_int M * pow2 e)"
  by simp

lemma float_of_rat_exact:
  assumes "double_representable q"
  shows "\<exists>d. float_of_rat q = Fin d \<and> dbl_value d = q"
proof (cases "q = 0")
  case True
  then show ?thesis by (simp add: float_of_rat_def)
next
  case False
  from assms obtain m k where q: "q = of_int m * pow2 k" and m: "\<bar>m\<bar> < 2 ^ 53"
    and k: "- 1074 \<le> k" and big: "\<bar>q\<bar> < pow2 1024"
    by (auto simp: double_representable_def)
  obtain M e where r: "round53 \<bar>q\<bar> = (M, e)" by (cases "round53 \<bar>q\<bar>")
  have x: "0 < \<bar>q\<bar>" using False by simp
  note f = round53_facts [OF x r]
  have absq: "\<bar>q\<bar> = of_int \<bar>m\<bar> * pow2 k" by (simp add: q abs_mult)
  have "rat_of_int \<bar>m\<bar> < of_int (2 ^ 53)" using m by (simp only: of_int_less_iff)
  then have "rat_of_int \<bar>m\<bar> < pow2 53" by (simp add: pow2_def)
  then have "\<bar>q\<bar> < pow2 53 * pow2 k" unfolding absq by (simp add: mult_strict_right_mono)
  then have "\<bar>q\<bar> < pow2 (53 + k)" by (simp add: pow2_add)
  with floor_log2_bounds [OF x] have "pow2 (floor_log2 \<bar>q\<bar>) < pow2 (53 + k)"
    by (meson le_less_trans)
  then have ek: "e \<le> k" using f(1) by simp
  have "\<bar>q\<bar> / pow2 e = of_int \<bar>m\<bar> * pow2 (k - e)" by (simp add: absq pow2_diff)
  also have "\<dots> = of_int (\<bar>m\<bar> * 2 ^ nat (k - e))" using ek by (simp add: pow2_of_nat)
  finally have "round_half_even (\<bar>q\<bar> / pow2 e) = \<bar>m\<bar> * 2 ^ nat (k - e)"
    by (simp only: round_half_even_of_int)
  then have M: "M = \<bar>m\<bar> * 2 ^ nat (k - e)" using r f(1) by (simp add: round53_def Let_def)
  have "of_int M * pow2 e = of_int \<bar>m\<bar> * (pow2 (k - e) * pow2 e)"
    using ek by (simp add: M pow2_of_nat)
  also have "\<dots> = \<bar>q\<bar>" by (simp add: absq flip: pow2_add)
  finally have Me: "of_int M * pow2 e = \<bar>q\<bar>" .
  have v: "of_int (if q < 0 then - M else M) * pow2 e = q"
    unfolding signed_value Me by simp
  have sub: "q / pow2 (- 1074) = of_int (m * 2 ^ nat (k + 1074))"
  proof -
    have "pow2 (k + 1074) = pow2 k / pow2 (- 1074)" using pow2_diff [of k "- 1074"] by simp
    then have "q / pow2 (- 1074) = of_int m * pow2 (k + 1074)" by (simp add: q)
    also have "\<dots> = of_int (m * 2 ^ nat (k + 1074))" using k by (simp add: pow2_of_nat)
    finally show ?thesis .
  qed
  have bk: "rat_of_int (m * 2 ^ nat (k + 1074)) * pow2 (- 1074) = q"
  proof -
    have "rat_of_int (m * 2 ^ nat (k + 1074)) * pow2 (- 1074)
        = of_int m * (pow2 (k + 1074) * pow2 (- 1074))" using k by (simp add: pow2_of_nat)
    also have "\<dots> = q" by (simp add: q flip: pow2_add)
    finally show ?thesis .
  qed
  have rsub: "round_half_even (q / pow2 (- 1074)) = m * 2 ^ nat (k + 1074)"
    by (simp only: sub round_half_even_of_int)
  have nb: "\<not> pow2 1024 \<le> \<bar>q\<bar>" using big by simp
  show ?thesis
  proof (cases "\<bar>q\<bar> < pow2 (- 1022)")
    case True
    have "float_of_rat q = Fin (Dbl (m * 2 ^ nat (k + 1074)) (- 1074))"
      unfolding float_of_rat_nonzero [OF False r] v Me
      by (simp only: nb True rsub if_False if_True)
    moreover have "dbl_value (Dbl (m * 2 ^ nat (k + 1074)) (- 1074)) = q"
      by (simp only: dbl_value.simps bk)
    ultimately show ?thesis by blast
  next
    case nsub: False
    have "float_of_rat q = Fin (Dbl (if q < 0 then - M else M) e)"
      unfolding float_of_rat_nonzero [OF False r] Me
      by (simp only: nb nsub if_False)
    moreover have "dbl_value (Dbl (if q < 0 then - M else M) e) = q"
      by (simp only: dbl_value.simps v)
    ultimately show ?thesis by blast
  qed
qed

lemma of_int_pow2_less:
  "m < 2 ^ n \<Longrightarrow> rat_of_int m < pow2 (int n)"
proof -
  assume "m < 2 ^ n"
  then have "rat_of_int m < of_int (2 ^ n)" by (simp only: of_int_less_iff)
  then show ?thesis by (simp add: pow2_def)
qed

lemma of_int_pow2_le:
  "m \<le> 2 ^ n \<Longrightarrow> rat_of_int m \<le> pow2 (int n)"
proof -
  assume "m \<le> 2 ^ n"
  then have "rat_of_int m \<le> of_int (2 ^ n)" by (simp only: of_int_le_iff)
  then show ?thesis by (simp add: pow2_def)
qed

lemma pow2_le_of_int:
  "2 ^ n \<le> m \<Longrightarrow> pow2 (int n) \<le> rat_of_int m"
proof -
  assume "2 ^ n \<le> m"
  then have "rat_of_int (2 ^ n) \<le> of_int m" by (simp only: of_int_le_iff)
  then show ?thesis by (simp add: pow2_def)
qed

lemma float_of_rat_is_double:
  assumes "float_of_rat q = Fin d"
  shows "double_representable (dbl_value d)"
proof (cases "q = 0")
  case True
  with assms have "d = Dbl 0 0" by (simp add: float_of_rat_def)
  then show ?thesis by (auto simp: double_representable_def intro!: exI [of _ 0])
next
  case False
  obtain M e where r: "round53 \<bar>q\<bar> = (M, e)" by (cases "round53 \<bar>q\<bar>")
  have x: "0 < \<bar>q\<bar>" using False by simp
  note f = round53_facts [OF x r]
  let ?s = "if q < 0 then - M else M"
  let ?v = "rat_of_int ?s * pow2 e"
  have absv: "\<bar>?v\<bar> = of_int M * pow2 e" using f(2) by (simp add: abs_mult)
  note c = assms [unfolded float_of_rat_nonzero [OF False r]]
  from c have nb: "of_int M * pow2 e < pow2 1024" by (auto split: if_splits)
  show ?thesis
  proof (cases "of_int M * pow2 e < pow2 (- 1022)")
    case True
    let ?k = "round_half_even (?v / pow2 (- 1074))"
    from c nb True have d: "d = Dbl ?k (- 1074)" by (simp split: if_splits)
    have "\<bar>?v / pow2 (- 1074)\<bar> = of_int M * pow2 e / pow2 (- 1074)"
      by (simp only: abs_divide absv pow2_abs)
    also have "\<dots> < pow2 (- 1022) / pow2 (- 1074)"
      using True by (simp add: divide_strict_right_mono)
    also have "\<dots> = pow2 52" using pow2_diff [of "- 1022" "- 1074"] by simp
    also have "\<dots> = of_int (2 ^ 52)" by (simp add: pow2_def)
    finally have b: "\<bar>?v / pow2 (- 1074)\<bar> < of_int (2 ^ 52)" .
    define y where "y = ?v / pow2 (- 1074)"
    from b have "y \<le> of_int (2 ^ 52)" "of_int (- (2 ^ 52)) \<le> y"
      unfolding y_def [symmetric] by (simp_all add: abs_less_iff)
    then have "round_half_even y \<le> 2 ^ 52" "- (2 ^ 52) \<le> round_half_even y"
      using round_half_even_le round_half_even_ge by blast+
    then have "?k \<le> 2 ^ 52" "- (2 ^ 52) \<le> ?k"
      unfolding y_def by blast+
    then have k: "\<bar>?k\<bar> \<le> 2 ^ 52" by simp
    then have k53: "\<bar>?k\<bar> < 2 ^ 53" by simp
    have "\<bar>dbl_value d\<bar> = of_int \<bar>?k\<bar> * pow2 (- 1074)" by (simp add: d abs_mult)
    also have "\<dots> \<le> pow2 52 * pow2 (- 1074)"
      using of_int_pow2_le [OF k] by (simp add: mult_right_mono)
    also have "\<dots> < pow2 1024" by (simp flip: pow2_add)
    finally have "\<bar>dbl_value d\<bar> < pow2 1024" .
    with k53 show ?thesis unfolding double_representable_def
      by (intro exI [of _ ?k] exI [of _ "- 1074"]) (simp add: d)
  next
    case nsub: False
    from c nb nsub have d: "d = Dbl ?s e" by (simp split: if_splits)
    have val: "\<bar>dbl_value d\<bar> = of_int M * pow2 e" using absv by (simp add: d)
    show ?thesis
    proof (cases "M = 2 ^ 53")
      case True
      have "pow2 (- 1022) \<le> pow2 53 * pow2 e" using nsub by (simp add: True pow2_def)
      then have e: "- 1075 \<le> e" by (simp flip: pow2_add)
      have "pow2 1 = 2" by (simp add: pow2_def)
      then have "pow2 (e + 1) = 2 * pow2 e" by (simp add: pow2_add)
      then have "dbl_value d = of_int (if q < 0 then - (2 ^ 52) else 2 ^ 52) * pow2 (e + 1)"
        by (simp add: d True)
      moreover have "\<bar>if q < 0 then - (2 ^ 52) else (2 ^ 52 :: int)\<bar> < 2 ^ 53" by simp
      ultimately show ?thesis unfolding double_representable_def
        using e nb val by (intro exI [of _ "if q < 0 then - (2 ^ 52) else 2 ^ 52"] exI [of _ "e + 1"]) simp
    next
      case False
      with f(3) have M: "M < 2 ^ 53" by simp
      have "pow2 (- 1022) \<le> of_int M * pow2 e" using nsub by simp
      also have "\<dots> < pow2 53 * pow2 e"
        using of_int_pow2_less [OF M] by (simp add: mult_strict_right_mono)
      finally have e: "- 1074 \<le> e" by (simp flip: pow2_add)
      have "\<bar>?s\<bar> < 2 ^ 53" using M f(2) by simp
      then show ?thesis unfolding double_representable_def
        using e nb val by (intro exI [of _ ?s] exI [of _ e]) (simp add: d)
    qed
  qed
qed

lemma float_of_rat_error:
  assumes "float_of_rat q = Fin d"
  shows "\<bar>dbl_value d - q\<bar> \<le> \<bar>q\<bar> / 2 ^ 53 + pow2 (- 1075)"
proof (cases "q = 0")
  case True
  with assms have "d = Dbl 0 0" by (simp add: float_of_rat_def)
  then show ?thesis by (simp add: True)
next
  case False
  obtain M e where r: "round53 \<bar>q\<bar> = (M, e)" by (cases "round53 \<bar>q\<bar>")
  have x: "0 < \<bar>q\<bar>" using False by simp
  note f = round53_facts [OF x r]
  let ?s = "if q < 0 then - M else M"
  let ?v = "rat_of_int ?s * pow2 e"
  have vq: "\<bar>?v - q\<bar> = \<bar>of_int M * pow2 e - \<bar>q\<bar>\<bar>"
  proof (cases "q < 0")
    case True
    then have "?v - q = - (of_int M * pow2 e - \<bar>q\<bar>)" by simp
    then show ?thesis by (simp only: abs_minus_cancel)
  next
    case False
    then have "?v - q = of_int M * pow2 e - \<bar>q\<bar>" by simp
    then show ?thesis by simp
  qed
  from floor_log2_bounds [OF x] f(1) have "pow2 (e + 52) \<le> \<bar>q\<bar>" by (simp add: add.commute)
  then have "pow2 e * pow2 52 \<le> \<bar>q\<bar>" by (simp add: pow2_add)
  then have "pow2 e / 2 \<le> \<bar>q\<bar> / 2 ^ 53" by (simp add: pow2_def)
  with f(4) vq have first: "\<bar>?v - q\<bar> \<le> \<bar>q\<bar> / 2 ^ 53" by simp
  note c = assms [unfolded float_of_rat_nonzero [OF False r]]
  from c have nb: "of_int M * pow2 e < pow2 1024" by (auto split: if_splits)
  show ?thesis
  proof (cases "of_int M * pow2 e < pow2 (- 1022)")
    case True
    let ?k = "round_half_even (?v / pow2 (- 1074))"
    from c nb True have d: "d = Dbl ?k (- 1074)" by (simp split: if_splits)
    have "dbl_value d - ?v = (of_int ?k - ?v / pow2 (- 1074)) * pow2 (- 1074)"
      by (simp add: d left_diff_distrib)
    then have "\<bar>dbl_value d - ?v\<bar> = \<bar>of_int ?k - ?v / pow2 (- 1074)\<bar> * \<bar>pow2 (- 1074)\<bar>"
      by (simp only: abs_mult)
    also have "\<dots> = \<bar>of_int ?k - ?v / pow2 (- 1074)\<bar> * pow2 (- 1074)"
      by (simp only: pow2_abs)
    also have "\<dots> \<le> 1 / 2 * pow2 (- 1074)"
      by (rule mult_right_mono [OF round_half_even_err pow2_nonneg])
    also have "\<dots> = pow2 (- 1075)" by (simp add: pow2_def)
    finally have second: "\<bar>dbl_value d - ?v\<bar> \<le> pow2 (- 1075)" .
    have "\<bar>dbl_value d - q\<bar> \<le> \<bar>dbl_value d - ?v\<bar> + \<bar>?v - q\<bar>" by simp
    with first second show ?thesis by linarith
  next
    case nsub: False
    from c nb nsub have d: "d = Dbl ?s e" by (simp split: if_splits)
    have "0 \<le> pow2 (- 1075)" by simp
    moreover have "dbl_value d = ?v" by (simp only: d dbl_value.simps)
    ultimately show ?thesis using first by linarith
  qed
qed

text \<open>The threshold from which the conversion overflows to an infinity.\<close>

lemma round_half_even_less:
  assumes "x < of_int b - 1 / 2"
  shows "round_half_even x < b"
proof -
  have "of_int (round_half_even x) - x \<le> 1 / 2"
    using round_half_even_err [of x] by linarith
  with assms have "rat_of_int (round_half_even x) < of_int b" by linarith
  then show ?thesis by (simp only: of_int_less_iff)
qed

lemma round_half_even_tie:
  assumes "of_int b - 1 / 2 \<le> x" "even b"
  shows "b \<le> round_half_even x"
proof (cases "of_int b \<le> x")
  case True
  then show ?thesis by (rule round_half_even_ge)
next
  case False
  then have lt: "x < of_int b" by simp
  from assms(1) have "of_int (b - 1) \<le> x" by simp
  then have "b - 1 \<le> \<lfloor>x\<rfloor>" by (simp only: le_floor_iff)
  moreover from lt have "\<lfloor>x\<rfloor> < b" by (simp only: floor_less_iff)
  ultimately have fl: "\<lfloor>x\<rfloor> = b - 1" by simp
  have odd: "\<not> even (b - 1)" using assms(2) by simp
  have "\<not> x - of_int (b - 1) < 1 / 2" using assms(1) by simp
  then show ?thesis using odd unfolding round_half_even_def Let_def fl by (simp del: of_int_diff)
qed

lemma overflow_threshold: "pow2 1024 - pow2 970 = (pow2 53 - 1 / 2) * pow2 971"
proof -
  have a: "pow2 53 * pow2 971 = pow2 1024" by (simp flip: pow2_add)
  have "pow2 1 = 2" by (simp add: pow2_def)
  then have "pow2 971 = 2 * pow2 970" using pow2_add [of 1 970] by simp
  then have b: "1 / 2 * pow2 971 = pow2 970" by simp
  show ?thesis by (simp only: left_diff_distrib a b)
qed

lemma round53_overflow:
  assumes x: "0 < x" and r: "round53 x = (M, e)"
  shows "pow2 1024 \<le> of_int M * pow2 e \<longleftrightarrow> pow2 1024 - pow2 970 \<le> x"
proof
  note f = round53_facts [OF x r]
  note b = floor_log2_bounds [OF x]
  assume big: "pow2 1024 - pow2 970 \<le> x"
  show "pow2 1024 \<le> of_int M * pow2 e"
  proof (cases "pow2 1024 \<le> x")
    case True
    with b have "pow2 1024 < pow2 (floor_log2 x + 1)" by (meson le_less_trans)
    then have "972 \<le> e" using f(1) by simp
    then have "pow2 972 \<le> pow2 e" by simp
    moreover have "pow2 52 \<le> rat_of_int M" using pow2_le_of_int [OF f(2)] by simp
    moreover have "(0::rat) \<le> of_int M" using f(2) by simp
    ultimately have "pow2 52 * pow2 972 \<le> of_int M * pow2 e"
      by (intro mult_mono) simp_all
    then show ?thesis by (simp flip: pow2_add)
  next
    case False
    then have lt: "x < pow2 1024" by simp
    with b have "pow2 (floor_log2 x) < pow2 1024" by (meson le_less_trans)
    then have e1: "e \<le> 971" using f(1) by simp
    have "pow2 970 \<le> pow2 1023" by simp
    moreover have "pow2 1024 = pow2 1023 + pow2 1023"
      using pow2_add [of 1 1023] by (simp add: pow2_def)
    ultimately have "pow2 1023 \<le> x" using big by linarith
    with b have "pow2 1023 < pow2 (floor_log2 x + 1)" by (meson le_less_trans)
    then have "971 \<le> e" using f(1) by simp
    with e1 have e: "e = 971" by simp
    have "(pow2 53 - 1 / 2) * pow2 971 \<le> x" using big by (simp only: overflow_threshold)
    then have "pow2 53 - 1 / 2 \<le> x / pow2 971" by (simp add: pos_le_divide_eq)
    then have "of_int (2 ^ 53) - 1 / 2 \<le> x / pow2 971" by (simp add: pow2_def)
    from round_half_even_tie [OF this] have "2 ^ 53 \<le> M"
      using r by (simp add: round53_def Let_def e [symmetric] f(1) [symmetric])
    from pow2_le_of_int [OF this] have "pow2 53 * pow2 971 \<le> of_int M * pow2 971"
      by (intro mult_right_mono) simp_all
    then show ?thesis by (simp add: e flip: pow2_add)
  qed
next
  note f = round53_facts [OF x r]
  note b = floor_log2_bounds [OF x]
  assume ov: "pow2 1024 \<le> of_int M * pow2 e"
  show "pow2 1024 - pow2 970 \<le> x"
  proof (rule ccontr)
    assume "\<not> pow2 1024 - pow2 970 \<le> x"
    then have small: "x < pow2 1024 - pow2 970" by simp
    have "0 < pow2 970" by simp
    with small have "x < pow2 1024" by linarith
    with b have "pow2 (floor_log2 x) < pow2 1024" by (meson le_less_trans)
    then have e1: "e \<le> 971" using f(1) by simp
    have "of_int M * pow2 e < pow2 1024"
    proof (cases "e = 971")
      case True
      have "x < (pow2 53 - 1 / 2) * pow2 971" using small by (simp only: overflow_threshold)
      then have "x / pow2 971 < pow2 53 - 1 / 2" by (simp add: pos_divide_less_eq)
      then have "x / pow2 971 < of_int (2 ^ 53) - 1 / 2" by (simp add: pow2_def)
      from round_half_even_less [OF this] have "M < 2 ^ 53"
        using r by (simp add: round53_def Let_def True [symmetric] f(1) [symmetric])
      from of_int_pow2_less [OF this] have "of_int M * pow2 971 < pow2 53 * pow2 971"
        by (intro mult_strict_right_mono) simp_all
      then show ?thesis by (simp add: True flip: pow2_add)
    next
      case False
      with e1 have "e \<le> 970" by simp
      then have "pow2 e \<le> pow2 970" by simp
      moreover have "rat_of_int M \<le> pow2 53" using of_int_pow2_le [OF f(3)] by simp
      ultimately have "of_int M * pow2 e \<le> pow2 53 * pow2 970"
        by (intro mult_mono) simp_all
      also have "\<dots> < pow2 1024" by (simp flip: pow2_add)
      finally show ?thesis .
    qed
    with ov show False by simp
  qed
qed

lemma float_of_rat_finite_iff:
  "(\<exists>d. float_of_rat q = Fin d) \<longleftrightarrow> \<bar>q\<bar> < pow2 1024 - pow2 970"
proof (cases "q = 0")
  case True
  have "pow2 970 < pow2 1024" by simp
  then show ?thesis by (simp add: True float_of_rat_def)
next
  case False
  obtain M e where r: "round53 \<bar>q\<bar> = (M, e)" by (cases "round53 \<bar>q\<bar>")
  have x: "0 < \<bar>q\<bar>" using False by simp
  show ?thesis
    unfolding float_of_rat_nonzero [OF False r]
    using round53_overflow [OF x r] by (auto simp: not_le [symmetric])
qed

text \<open>
  What the function remembers decides before the body does: after a call on \<open>True\<close>, a
  call on \<open>Integer(1)\<close> finds the key of \<open>True\<close> and returns the float remembered for
  it, not the \<open>int\<close> of line 23.
\<close>

lemma remembered_result_of_equal_key:
  "snd (sympy_to_python sample_key_eq [] (PyBool True)) = [(PyBool True, PyFloat (Fin (Dbl 1 0)))]
   \<and> fst (sympy_to_python sample_key_eq [(PyBool True, PyFloat (Fin (Dbl 1 0)))] (Sym 1))
       = Inr (PyFloat (Fin (Dbl 1 0)))
   \<and> fst (sympy_to_python sample_key_eq [] (Sym 1)) = Inr (PyInt 1)"
  by code_simp

text \<open>
  C3, as stated, fails: the entry \<open>1/3\<close> is serialised by \<open>float(obj)\<close> (line 25) to the
  double \<open>6004799503160661 * 2^-54\<close>, which is not \<open>1/3\<close>.
\<close>

theorem serialised_third_is_inexact:
  "fst (sympy_to_python sample_key_eq [] (Sym (1 / 3)))
     = Inr (PyFloat (Fin (Dbl 6004799503160661 (- 54))))
   \<and> py_value (PyFloat (Fin (Dbl 6004799503160661 (- 54)))) \<noteq> Some (1 / 3)"
  by code_simp

text \<open>
  C3, amended: when no earlier call with the same key is remembered, serialising an
  entry whose exact value is \<open>q\<close> yields the Python \<open>int\<close> equal to \<open>q\<close> if \<open>q\<close> is an
  integer, and the float \<open>float(q)\<close> otherwise. That float stands for \<open>q\<close> exactly when
  \<open>q\<close> is a value a double can hold (\<open>1/2\<close>, \<open>0.25\<close>, \<open>1.5\<close>, but not \<open>1/3\<close>); it is
  finite exactly when \<open>|q| < 2^1024 - 2^970\<close>, an infinity otherwise; and when finite it
  differs from \<open>q\<close> by at most \<open>|q| / 2^53 + 2^-1075\<close>. When an earlier call with the
  same key is remembered, the result of that call is returned instead.
\<close>

theorem serialised_entry:
  "(memo_lookup key_eq memo (Sym q) = None \<longrightarrow>
      (is_Integer q \<longrightarrow>
         fst (sympy_to_python key_eq memo (Sym q)) = Inr (PyInt \<lfloor>q\<rfloor>)
       \<and> py_value (PyInt \<lfloor>q\<rfloor>) = Some q)
    \<and> (\<not> is_Integer q \<longrightarrow>
         fst (sympy_to_python key_eq memo (Sym q)) = Inr (PyFloat (float_of_rat q))
       \<and> (py_value (PyFloat (float_of_rat q)) = Some q \<longleftrightarrow> double_representable q)
       \<and> ((\<exists>d. float_of_rat q = Fin d) \<longleftrightarrow> \<bar>q\<bar> < pow2 1024 - pow2 970)
       \<and> (\<forall>d. float_of_rat q = Fin d \<longrightarrow>
             \<bar>dbl_value d - q\<bar> \<le> \<bar>q\<bar> / 2 ^ 53 + pow2 (- 1075))))
   \<and> (\<forall>e. memo_lookup key_eq memo (Sym q) = Some e \<longrightarrow>
         fst (sympy_to_python key_eq memo (Sym q)) = Inr (snd e))"
proof -
  have int_case: "fst (sympy_to_python key_eq memo (Sym q)) = Inr (PyInt \<lfloor>q\<rfloor>)"
    if "memo_lookup key_eq memo (Sym q) = None" "is_Integer q"
    using that by simp
  have int_value: "py_value (PyInt \<lfloor>q\<rfloor>) = Some q" if "is_Integer q"
    using that by (simp add: is_Integer_of_int_floor)
  have float_case: "fst (sympy_to_python key_eq memo (Sym q)) = Inr (PyFloat (float_of_rat q))"
    if "memo_lookup key_eq memo (Sym q) = None" "\<not> is_Integer q"
    using that by simp
  have exact: "py_value (PyFloat (float_of_rat q)) = Some q \<longleftrightarrow> double_representable q"
  proof
    assume v: "py_value (PyFloat (float_of_rat q)) = Some q"
    then obtain d where d: "float_of_rat q = Fin d" by (cases "float_of_rat q") simp_all
    with v have "dbl_value d = q" by simp
    with float_of_rat_is_double [OF d] show "double_representable q" by simp
  next
    assume "double_representable q"
    from float_of_rat_exact [OF this] show "py_value (PyFloat (float_of_rat q)) = Some q"
      by auto
  qed
  have finite: "(\<exists>d. float_of_rat q = Fin d) \<longleftrightarrow> \<bar>q\<bar> < pow2 1024 - pow2 970"
    by (rule float_of_rat_finite_iff)
  have bound: "\<forall>d. float_of_rat q = Fin d \<longrightarrow>
      \<bar>dbl_value d - q\<bar> \<le> \<bar>q\<bar> / 2 ^ 53 + pow2 (- 1075)"
    using float_of_rat_error by blast
  have hit_case: "\<forall>e. memo_lookup key_eq memo (Sym q) = Some e \<longrightarrow>
      fst (sympy_to_python key_eq memo (Sym q)) = Inr (snd e)"
    by simp
  from int_case int_value float_case exact finite bound hit_case show ?thesis by blast
qed

theorem serialised_entry_witness:
  "memo_lookup sample_key_eq [] (Sym 7) = None \<and> is_Integer 7
   \<and> fst (sympy_to_python sample_key_eq [] (Sym 7)) = Inr (PyInt 7)
   \<and> py_value (PyInt 7) = Some 7
   \<and> memo_lookup sample_key_eq [] (Sym (1 / 4)) = None \<and> \<not> is_Integer (1 / 4)
   \<and> fst (sympy_to_python sample_key_eq [] (Sym (1 / 4))) = Inr (PyFloat (float_of_rat (1 / 4)))
   \<and> double_representable (1 / 4)
   \<and> py_value (PyFloat (float_of_rat (1 / 4))) = Some (1 / 4)
   \<and> memo_lookup sample_key_eq [] (Sym (1 / 3)) = None \<and> \<not> is_Integer (1 / 3)
   \<and> \<not> double_representable (1 / 3)
   \<and> \<bar>1 / 3 :: rat\<bar> < pow2 1024 - pow2 970
   \<and> float_of_rat (1 / 3) = Fin (Dbl 6004799503160661 (- 54))
   \<and> \<bar>dbl_value (Dbl 6004799503160661 (- 54)) - 1 / 3\<bar> \<le> \<bar>1 / 3\<bar> / 2 ^ 53 + pow2 (- 1075)
   \<and> memo_lookup sample_key_eq [(PyBool True, PyFloat (Fin (Dbl 1 0)))] (Sym 1)
       = Some (PyBool True, PyFloat (Fin (Dbl 1 0)))
   \<and> fst (sympy_to_python sample_key_eq [(PyBool True, PyFloat (Fin (Dbl 1 0)))] (Sym 1))
       = Inr (PyFloat (Fin (Dbl 1 0)))"
proof -
  have l7: "memo_lookup sample_key_eq [] (Sym 7) = None"
    and l4: "memo_lookup sample_key_eq [] (Sym (1 / 4)) = None"
    and l3: "memo_lookup sample_key_eq [] (Sym (1 / 3)) = None"
    by (simp_all add: memo_lookup_def)
  have l1: "memo_lookup sample_key_eq [(PyBool True, PyFloat (Fin (Dbl 1 0)))] (Sym 1)
      = Some (PyBool True, PyFloat (Fin (Dbl 1 0)))"
    by (simp add: memo_lookup_def sample_key_eq_def)
  have i7: "is_Integer 7" by code_simp
  have i4: "\<not> is_Integer (1 / 4)" by code_simp
  have i3: "\<not> is_Integer (1 / 3)" by code_simp
  have f7: "\<lfloor>7 :: rat\<rfloor> = 7" by simp
  have v4: "py_value (PyFloat (float_of_rat (1 / 4))) = Some (1 / 4)" by code_simp
  have f3: "float_of_rat (1 / 3) = Fin (Dbl 6004799503160661 (- 54))" by code_simp
  have v3: "py_value (PyFloat (float_of_rat (1 / 3))) \<noteq> Some (1 / 3)" by code_simp
  note t7 = serialised_entry [of sample_key_eq "[]" 7]
  note t4 = serialised_entry [of sample_key_eq "[]" "1 / 4"]
  note t3 = serialised_entry [of sample_key_eq "[]" "1 / 3"]
  note t1 = serialised_entry [of sample_key_eq "[(PyBool True, PyFloat (Fin (Dbl 1 0)))]" 1]
  from t7 l7 i7 f7 have a: "fst (sympy_to_python sample_key_eq [] (Sym 7)) = Inr (PyInt 7)"
    and a': "py_value (PyInt 7) = Some 7" by simp_all
  from t4 l4 i4 have b: "fst (sympy_to_python sample_key_eq [] (Sym (1 / 4)))
      = Inr (PyFloat (float_of_rat (1 / 4)))" by blast
  from t4 l4 i4 v4 have c: "double_representable (1 / 4)" by blast
  from t3 l3 i3 v3 have d: "\<not> double_representable (1 / 3)" by blast
  from t3 l3 i3 f3 have e: "\<bar>1 / 3 :: rat\<bar> < pow2 1024 - pow2 970" by blast
  from t3 l3 i3 f3 have g: "\<bar>dbl_value (Dbl 6004799503160661 (- 54)) - 1 / 3\<bar>
      \<le> \<bar>1 / 3\<bar> / 2 ^ 53 + pow2 (- 1075)" by blast
  from t1 l1 have h: "fst (sympy_to_python sample_key_eq
      [(PyBool True, PyFloat (Fin (Dbl 1 0)))] (Sym 1)) = Inr (PyFloat (Fin (Dbl 1 0)))"
    by (metis snd_conv)
  from l7 i7 a a' l4 i4 b c v4 l3 i3 d e f3 g l1 h show ?thesis by blast
qed

section \<open>The reduced row echelon form\<close>

lemma find_Some_D: "find P xs = Some e \<Longrightarrow> P e \<and> e \<in> set xs"
  by (induction xs) (auto split: if_splits)

lemma find_pivot_Some:
  assumes "find_pivot A r c = Some p"
  shows "r \<le> p \<and> p < length A \<and> A ! p ! c \<noteq> 0"
proof -
  from assms have "A ! p ! c \<noteq> 0" "p \<in> set [r..<length A]"
    by (auto simp: find_pivot_def dest: find_Some_D)
  then show ?thesis by auto
qed

lemma find_pivot_None:
  assumes "find_pivot A r c = None" "r \<le> k" "k < length A"
  shows "A ! k ! c = 0"
  using assms by (auto simp: find_pivot_def find_None_iff)

lemma step_length [simp]:
  "length (eliminate (normalize_row (swap_rows A r p) r c) r c) = length A"
  by (simp add: eliminate_def normalize_row_def swap_rows_def)

lemma step_entry:
  assumes A: "is_matrix m n A" and r: "r < m" and p: "p < m" and k: "k < m" and j: "j < n"
  shows "eliminate (normalize_row (swap_rows A r p) r c) r c ! k ! j =
           (if k = r then A ! p ! j / A ! p ! c
            else (if k = p then A ! r else A ! k) ! j
                 - (if k = p then A ! r else A ! k) ! c * (A ! p ! j / A ! p ! c))"
proof -
  let ?B = "swap_rows A r p"
  let ?C = "normalize_row ?B r c"
  from A have len: "length A = m" and rows: "\<And>i. i < m \<Longrightarrow> length (A ! i) = n"
    by (auto simp: is_matrix_def)
  have Bk: "?B ! i = (if i = p then A ! r else if i = r then A ! p else A ! i)" if "i < m" for i
    using that r p len by (simp add: swap_rows_def nth_list_update)
  have lenB: "length ?B = m" using len by (simp add: swap_rows_def)
  have Br: "?B ! r = A ! p" using Bk [OF r] by simp
  have Ck: "?C ! i = (if i = r then map (\<lambda>x. x / A ! p ! c) (A ! p)
                      else if i = p then A ! r else A ! i)" if "i < m" for i
    using that r lenB Bk [OF that] Br by (simp add: normalize_row_def nth_list_update)
  have lenC: "length ?C = m" using lenB by (simp add: normalize_row_def)
  have Crj: "?C ! r ! j = A ! p ! j / A ! p ! c"
    using Ck [OF r] rows [OF p] j by simp
  have lenCr: "length (?C ! r) = n" using Ck [OF r] rows [OF p] by simp
  show ?thesis
  proof (cases "k = r")
    case True
    then show ?thesis using k lenC Crj by (simp add: eliminate_def)
  next
    case False
    have lenCk: "length (?C ! k) = n" using Ck [OF k] False rows [OF r] rows [OF k] by simp
    have "eliminate ?C r c ! k ! j = ?C ! k ! j - ?C ! k ! c * ?C ! r ! j"
      using False k lenC lenCk lenCr j by (simp add: eliminate_def)
    then show ?thesis using False Ck [OF k] Crj by simp
  qed
qed

lemma step_is_matrix:
  assumes A: "is_matrix m n A" and r: "r < m" and p: "p < m"
  shows "is_matrix m n (eliminate (normalize_row (swap_rows A r p) r c) r c)"
proof -
  let ?B = "swap_rows A r p"
  let ?C = "normalize_row ?B r c"
  from A have len: "length A = m" and rows: "\<And>i. i < m \<Longrightarrow> length (A ! i) = n"
    by (auto simp: is_matrix_def)
  have lenB: "length ?B = m" using len by (simp add: swap_rows_def)
  have Bk: "length (?B ! i) = n" if "i < m" for i
    using that r p len rows by (simp add: swap_rows_def nth_list_update)
  have lenC: "length ?C = m" using lenB by (simp add: normalize_row_def)
  have Ck: "length (?C ! i) = n" if "i < m" for i
    using that r lenB Bk [OF that] Bk [OF r] by (auto simp: normalize_row_def nth_list_update)
  show ?thesis
    using lenC Ck r by (auto simp: is_matrix_def eliminate_def)
qed


lemma inv_no_pivot:
  assumes inv: "rref_inv m n A r c pivs" and c: "c < n" and none: "find_pivot A r c = None"
  shows "rref_inv m n A r (c + 1) pivs"
proof -
  from inv have len: "length A = m" by (simp add: rref_inv_def is_matrix_def)
  have z: "A ! k ! j = 0" if "k < m" "r \<le> k" "j < c + 1" for k j
  proof (cases "j = c")
    case True
    then show ?thesis using find_pivot_None [OF none that(2)] that(1) len by simp
  next
    case False
    with that inv show ?thesis by (simp add: rref_inv_def)
  qed
  have "\<forall>i<r. pivs ! i < c + 1" using inv by (auto simp: rref_inv_def less_Suc_eq)
  with inv c z show ?thesis unfolding rref_inv_def by simp
qed

lemma inv_pivot:
  assumes inv: "rref_inv m n A r c pivs" and c: "c < n" and r: "r < m"
    and piv: "find_pivot A r c = Some p"
  shows "rref_inv m n (eliminate (normalize_row (swap_rows A r p) r c) r c)
           (r + 1) (c + 1) (pivs @ [c])"
proof -
  let ?D = "eliminate (normalize_row (swap_rows A r p) r c) r c"
  from inv have A: "is_matrix m n A" and lp: "length pivs = r"
    and srt: "sorted_wrt (<) pivs" and pc: "\<And>i. i < r \<Longrightarrow> pivs ! i < c"
    and col: "\<And>i k. i < r \<Longrightarrow> k < m \<Longrightarrow> A ! k ! (pivs ! i) = (if k = i then 1 else 0)"
    and low: "\<And>k j. k < m \<Longrightarrow> r \<le> k \<Longrightarrow> j < c \<Longrightarrow> A ! k ! j = 0"
    and lead: "\<And>i j. i < r \<Longrightarrow> j < pivs ! i \<Longrightarrow> A ! i ! j = 0"
    by (simp_all add: rref_inv_def)
  from A have len: "length A = m" by (simp add: is_matrix_def)
  from find_pivot_Some [OF piv] len have rp: "r \<le> p" and p: "p < m" and nz: "A ! p ! c \<noteq> 0"
    by simp_all
  note ent = step_entry [OF A r p, of _ _ c]
  have D: "is_matrix m n ?D" by (rule step_is_matrix [OF A r p])
  have s1: "sorted_wrt (<) (pivs @ [c])"
    using srt pc lp by (auto simp: sorted_wrt_append in_set_conv_nth)
  have s2: "\<forall>i<r + 1. (pivs @ [c]) ! i < c + 1"
    using pc lp by (auto simp: nth_append less_Suc_eq)
  have pn: "pivs ! i < n" if "i < r" for i using pc [OF that] c by simp
  have s3: "?D ! k ! ((pivs @ [c]) ! i) = (if k = i then 1 else 0)" if "i < r + 1" "k < m" for i k
  proof (cases "i = r")
    case True
    then have "(pivs @ [c]) ! i = c" using lp by (simp add: nth_append)
    then show ?thesis using ent [OF that(2) c] nz True by simp
  next
    case False
    with that have ir: "i < r" by simp
    then have q: "(pivs @ [c]) ! i = pivs ! i" using lp by (simp add: nth_append)
    have zp: "A ! p ! (pivs ! i) = 0" using col [OF ir p] ir rp by simp
    have zr: "A ! r ! (pivs ! i) = 0" using col [OF ir r] ir by simp
    show ?thesis
      using ent [OF that(2) pn [OF ir]] q zp zr col [OF ir that(2)] ir rp by auto
  qed
  have s4: "?D ! k ! j = 0" if "k < m" "r + 1 \<le> k" "j < c + 1" for k j
  proof -
    from that have kr: "k \<noteq> r" "r \<le> k" by simp_all
    have jn: "j < n" using that c by simp
    show ?thesis
    proof (cases "j = c")
      case True
      then show ?thesis using ent [OF that(1) c] kr nz by simp
    next
      case False
      with that have jc: "j < c" by simp
      have "A ! p ! j = 0" using low [OF p rp jc] .
      moreover have "(if k = p then A ! r else A ! k) ! j = 0"
        using low [OF r _ jc] low [OF that(1) kr(2) jc] by simp
      ultimately show ?thesis using ent [OF that(1) jn] kr by simp
    qed
  qed
  have s5: "?D ! i ! j = 0" if "i < r + 1" "j < (pivs @ [c]) ! i" for i j
  proof (cases "i = r")
    case True
    with that lp have jc: "j < c" by (simp add: nth_append)
    then have jn: "j < n" using c by simp
    show ?thesis using ent [OF r jn] True low [OF p rp jc] by simp
  next
    case False
    with that have ir: "i < r" by simp
    with that lp have jq: "j < pivs ! i" by (simp add: nth_append)
    then have jc: "j < c" using pc [OF ir] by simp
    then have jn: "j < n" using c by simp
    have im: "i < m" using ir r by simp
    have ip: "i \<noteq> p" using ir rp by simp
    show ?thesis
      using ent [OF im jn] ir ip lead [OF ir jq] low [OF p rp jc] by simp
  qed
  show ?thesis
    unfolding rref_inv_def
    using D lp r c s1 s2 s3 s4 s5 by simp
qed

lemma inv_done:
  assumes inv: "rref_inv m n A r c pivs" and stop: "\<not> (c < n \<and> r < m)"
  shows "is_rref m n A pivs"
proof -
  from inv have lp: "length pivs = r" and rm: "r \<le> m" and cn: "c \<le> n"
    and A: "is_matrix m n A" by (simp_all add: rref_inv_def)
  have z: "A ! k ! j = 0" if "k < m" "length pivs \<le> k" "j < n" for k j
  proof -
    from that lp rm stop cn have "j < c" by auto
    with that lp inv show ?thesis by (simp add: rref_inv_def)
  qed
  have "\<forall>i<length pivs. pivs ! i < n" using inv cn lp by (auto simp: rref_inv_def)
  with inv lp z show ?thesis unfolding is_rref_def rref_inv_def by simp
qed

lemma rref_loop_is_rref:
  "rref_inv m n A r c pivs \<Longrightarrow> length A = m \<Longrightarrow> is_rref m n (fst (rref_loop n A r c pivs)) (snd (rref_loop n A r c pivs))"
proof (induction n A r c pivs rule: rref_loop.induct)
  case (1 n A r c pivs)
  show ?case
  proof (cases "c < n \<and> r < length A")
    case False
    then have stop: "\<not> (c < n \<and> r < m)" using "1.prems"(2) by simp
    from False have "rref_loop n A r c pivs = (A, pivs)" by auto
    with inv_done [OF "1.prems"(1) stop] show ?thesis by simp
  next
    case True
    show ?thesis
    proof (cases "find_pivot A r c")
      case None
      from True "1.prems" have "rref_inv m n A r (c + 1) pivs"
        using inv_no_pivot [OF _ _ None] by simp
      from "1.IH"(1) [OF True None this "1.prems"(2)] True None show ?thesis by simp
    next
      case (Some p)
      from True "1.prems" have inv': "rref_inv m n (eliminate (normalize_row (swap_rows A r p) r c) r c)
           (r + 1) (c + 1) (pivs @ [c])"
        using inv_pivot [OF _ _ _ Some] by simp
      have "length (eliminate (normalize_row (swap_rows A r p) r c) r c) = m"
        using "1.prems"(2) by simp
      from "1.IH"(2) [OF True Some inv' this] True Some show ?thesis by simp
    qed
  qed
qed

lemma inv_init: "is_matrix m n A \<Longrightarrow> rref_inv m n A 0 0 []"
  by (simp add: rref_inv_def)


lemma matrix_eqI:
  assumes "is_matrix m n A" "is_matrix m n B" "\<And>k j. k < m \<Longrightarrow> j < n \<Longrightarrow> A ! k ! j = B ! k ! j"
  shows "A = B"
proof (rule nth_equalityI)
  show "length A = length B" using assms(1,2) by (simp add: is_matrix_def)
next
  fix k assume "k < length A"
  then have k: "k < m" using assms(1) by (simp add: is_matrix_def)
  show "A ! k = B ! k"
  proof (rule nth_equalityI)
    show "length (A ! k) = length (B ! k)" using assms(1,2) k by (simp add: is_matrix_def)
  next
    fix j assume "j < length (A ! k)"
    then have "j < n" using assms(1) k by (simp add: is_matrix_def)
    then show "A ! k ! j = B ! k ! j" using assms(3) k by simp
  qed
qed

lemma step_id:
  assumes A: "is_matrix m n A" and r: "r < m"
    and one: "A ! r ! c = 1" and zero: "\<And>k. k < m \<Longrightarrow> k \<noteq> r \<Longrightarrow> A ! k ! c = 0"
  shows "eliminate (normalize_row (swap_rows A r r) r c) r c = A"
proof (rule matrix_eqI [OF step_is_matrix [OF A r r] A])
  fix k j assume "k < m" "j < n"
  then show "eliminate (normalize_row (swap_rows A r r) r c) r c ! k ! j = A ! k ! j"
    using step_entry [OF A r r, of k j c] one zero [of k] by auto
qed

lemma find_pivot_here:
  assumes "r < length A" "A ! r ! c \<noteq> 0"
  shows "find_pivot A r c = Some r"
  using assms by (simp add: find_pivot_def upt_conv_Cons)

lemma find_pivot_NoneI:
  assumes "\<And>k. r \<le> k \<Longrightarrow> k < length A \<Longrightarrow> A ! k ! c = 0"
  shows "find_pivot A r c = None"
  using assms by (auto simp: find_pivot_def find_None_iff)

lemma sorted_wrt_less_nth_mono:
  "sorted_wrt (<) (P :: nat list) \<Longrightarrow> i \<le> j \<Longrightarrow> j < length P \<Longrightarrow> P ! i \<le> P ! j"
  by (cases "i = j") (auto simp: sorted_wrt_iff_nth_less less_imp_le)

lemma rref_loop_fixed:
  "is_rref m n A Pv \<Longrightarrow> r \<le> length Pv \<Longrightarrow> (\<forall>i<r. Pv ! i < c)
   \<Longrightarrow> (\<forall>i. r \<le> i \<and> i < length Pv \<longrightarrow> c \<le> Pv ! i) \<Longrightarrow> pivs = take r Pv
   \<Longrightarrow> rref_loop n A r c pivs = (A, Pv)"
proof (induction n A r c pivs rule: rref_loop.induct)
  case (1 n A r c pivs)
  from "1.prems"(1) have A: "is_matrix m n A" and len: "length A = m" and lP: "length Pv \<le> m"
    and srt: "sorted_wrt (<) Pv" and pn: "\<And>i. i < length Pv \<Longrightarrow> Pv ! i < n"
    and col: "\<And>i k. i < length Pv \<Longrightarrow> k < m \<Longrightarrow> A ! k ! (Pv ! i) = (if k = i then 1 else 0)"
    and low: "\<And>k j. k < m \<Longrightarrow> length Pv \<le> k \<Longrightarrow> j < n \<Longrightarrow> A ! k ! j = 0"
    and lead: "\<And>i j. i < length Pv \<Longrightarrow> j < Pv ! i \<Longrightarrow> A ! i ! j = 0"
    by (simp_all add: is_rref_def is_matrix_def)
  note rP = "1.prems"(2) and before = "1.prems"(3) and after = "1.prems"(4) and pivs = "1.prems"(5)
  show ?case
  proof (cases "c < n \<and> r < length A")
    case False
    have "length Pv \<le> r"
    proof (rule ccontr)
      assume "\<not> length Pv \<le> r"
      then have rl: "r < length Pv" by simp
      with after have "c \<le> Pv ! r" by simp
      with pn [OF rl] have "c < n" by simp
      with False len have "m \<le> r" by simp
      with rl lP show False by simp
    qed
    with pivs have "pivs = Pv" by simp
    moreover from False have "rref_loop n A r c pivs = (A, pivs)" by auto
    ultimately show ?thesis by simp
  next
    case True
    then have cn: "c < n" and rm: "r < m" using len by simp_all
    show ?thesis
    proof (cases "r < length Pv \<and> Pv ! r = c")
      case here: True
      then have rl: "r < length Pv" and pr: "Pv ! r = c" by simp_all
      have one: "A ! r ! c = 1" using col [OF rl rm] pr by simp
      have zero: "A ! k ! c = 0" if "k < m" "k \<noteq> r" for k using col [OF rl that(1)] pr that(2) by simp
      have fp: "find_pivot A r c = Some r"
        using find_pivot_here [of r A c] rm len one by simp
      have id: "eliminate (normalize_row (swap_rows A r r) r c) r c = A"
        by (rule step_id [OF A rm one zero])
      have p1: "is_rref m n (eliminate (normalize_row (swap_rows A r r) r c) r c) Pv"
        using id "1.prems"(1) by simp
      have p2: "r + 1 \<le> length Pv" using rl by simp
      have p3: "\<forall>i<r + 1. Pv ! i < c + 1"
        using before pr by (auto simp: less_Suc_eq)
      have p4: "\<forall>i. r + 1 \<le> i \<and> i < length Pv \<longrightarrow> c + 1 \<le> Pv ! i"
      proof (intro allI impI)
        fix i assume i: "r + 1 \<le> i \<and> i < length Pv"
        then have "Pv ! r < Pv ! i" using srt by (simp add: sorted_wrt_iff_nth_less)
        with pr show "c + 1 \<le> Pv ! i" by simp
      qed
      have p5: "pivs @ [c] = take (r + 1) Pv"
        using pivs rl pr by (simp add: take_Suc_conv_app_nth)
      from "1.IH"(2) [OF True fp p1 p2 p3 p4 p5] True fp id show ?thesis by simp
    next
      case nothere: False
      have lt: "c < Pv ! i" if "r \<le> i" "i < length Pv" for i
      proof -
        from that have rl: "r < length Pv" by simp
        with nothere after have "c < Pv ! r" by (simp add: le_neq_implies_less)
        also have "Pv ! r \<le> Pv ! i" by (rule sorted_wrt_less_nth_mono [OF srt that])
        finally show ?thesis .
      qed
      have z: "A ! k ! c = 0" if "r \<le> k" "k < length A" for k
      proof (cases "k < length Pv")
        case True
        from lead [OF True lt [OF that(1) True]] show ?thesis .
      next
        case False
        with low [of k c] that len cn show ?thesis by simp
      qed
      have fp: "find_pivot A r c = None" by (rule find_pivot_NoneI) (rule z)
      have p3: "\<forall>i<r. Pv ! i < c + 1" using before by (auto simp: less_Suc_eq)
      have p4: "\<forall>i. r \<le> i \<and> i < length Pv \<longrightarrow> c + 1 \<le> Pv ! i"
        using lt by (auto simp: Suc_le_eq)
      from "1.IH"(1) [OF True fp "1.prems"(1) rP p3 p4 pivs] True fp show ?thesis by simp
    qed
  qed
qed


lemma parse_row_length:
  "parse_row ns rs vs = Inr qs \<Longrightarrow> length qs = length vs"
  by (induction vs arbitrary: qs) (auto split: sum.splits)

lemma parse_rows_shape:
  "parse_rows ns rs xs = Inr A \<Longrightarrow>
     length A = length xs \<and> (\<forall>i<length xs. length (A ! i) = length (items (xs ! i)))"
proof (induction xs arbitrary: A)
  case Nil
  then show ?case by simp
next
  case (Cons x xs)
  then obtain qs qss where qs: "parse_row ns rs (items x) = Inr qs"
    and qss: "parse_rows ns rs xs = Inr qss" and A: "A = qs # qss"
    by (auto split: sum.splits)
  from Cons.IH [OF qss] parse_row_length [OF qs] A show ?case
    by (auto simp: nth_Cons split: nat.splits)
qed

lemma parsed_matrix_valid:
  assumes "validate_and_parse ns rs raw = Inr A"
  shows "valid_matrix A"
proof -
  let ?xs = "items raw"
  from assms have m: "length ?xs \<le> MAX_DIMENSION" "length ?xs \<noteq> 0"
    and n: "length (items (hd ?xs)) \<noteq> 0" "length (items (hd ?xs)) \<le> MAX_DIMENSION"
    and rect: "list_all (\<lambda>row. length (items row) = length (items (hd ?xs))) ?xs"
    and p: "parse_rows ns rs ?xs = Inr A"
    by (auto simp: validate_and_parse_def Let_def split: if_splits)
  from parse_rows_shape [OF p] have len: "length A = length ?xs"
    and rows: "\<And>i. i < length ?xs \<Longrightarrow> length (A ! i) = length (items (?xs ! i))" by auto
  from rect have r: "\<And>i. i < length ?xs \<Longrightarrow> length (items (?xs ! i)) = length (items (hd ?xs))"
    by (simp add: list_all_length)
  from m len have ne: "A \<noteq> []" by auto
  then have "ncols A = length (A ! 0)" by (cases A) (simp_all add: ncols_def)
  with rows [of 0] r [of 0] m have nc: "ncols A = length (items (hd ?xs))" by simp
  have "list_all (\<lambda>row. length row = ncols A) A"
    using rows r nc len by (simp add: list_all_length)
  with m n len nc show ?thesis by (simp add: valid_matrix_def Suc_le_eq)
qed

lemma valid_is_matrix: "valid_matrix A \<Longrightarrow> is_matrix (length A) (ncols A) A"
  by (simp add: valid_matrix_def is_matrix_def list_all_length)

lemma is_matrix_ncols: "is_matrix m n A \<Longrightarrow> 0 < m \<Longrightarrow> ncols A = n"
  by (cases A) (auto simp: is_matrix_def ncols_def)

lemma Matrix_rref_is_rref:
  assumes "valid_matrix A"
  shows "is_rref (length A) (ncols A) (fst (Matrix_rref A)) (snd (Matrix_rref A))"
  unfolding Matrix_rref_def
  by (rule rref_loop_is_rref [OF inv_init [OF valid_is_matrix [OF assms]] refl])

lemma unit_column_filter_gen:
  "filter (\<lambda>x. x \<noteq> 0) (map (\<lambda>k. if k = i then 1 else (0::rat)) [0..<m])
     = (if i < m then [1] else [])"
  by (induction m) (auto simp: less_Suc_eq)

lemma unit_column_filter:
  "i < m \<Longrightarrow> filter (\<lambda>x. x \<noteq> 0) (map (\<lambda>k. if k = i then 1 else (0::rat)) [0..<m]) = [1]"
  by (simp add: unit_column_filter_gen)

lemma column_nth_map: "column R p = map (\<lambda>k. R ! k ! p) [0..<length R]"
  by (rule nth_equalityI) (simp_all add: column_def)

text \<open>
  C8: for every valid matrix the reduced matrix has the shape of the input, the pivot
  column indices are strictly increasing and as many as the rank, every pivot column
  of the reduced matrix has exactly one nonzero entry, which is 1, and every row below
  the last pivot row is zero.
\<close>

theorem rref_result_invariants:
  assumes "valid_matrix A"
  shows "length (fst (get_rref A)) = length A
       \<and> list_all (\<lambda>row. length row = ncols A) (fst (get_rref A))
       \<and> sorted_wrt (<) (snd (get_rref A))
       \<and> length (snd (get_rref A)) = get_rank A
       \<and> (\<forall>p \<in> set (snd (get_rref A)).
             p < ncols A \<and> filter (\<lambda>x. x \<noteq> 0) (column (fst (get_rref A)) p) = [1])
       \<and> (\<forall>k. length (snd (get_rref A)) \<le> k \<and> k < length A
             \<longrightarrow> list_all (\<lambda>x. x = 0) (fst (get_rref A) ! k))"
proof -
  let ?R = "fst (Matrix_rref A)" and ?P = "snd (Matrix_rref A)"
  let ?m = "length A" and ?n = "ncols A"
  from Matrix_rref_is_rref [OF assms] have R: "is_matrix ?m ?n ?R"
    and srt: "sorted_wrt (<) ?P" and pn: "\<And>i. i < length ?P \<Longrightarrow> ?P ! i < ?n"
    and lP: "length ?P \<le> ?m"
    and col: "\<And>i k. i < length ?P \<Longrightarrow> k < ?m \<Longrightarrow> ?R ! k ! (?P ! i) = (if k = i then 1 else 0)"
    and low: "\<And>k j. k < ?m \<Longrightarrow> length ?P \<le> k \<Longrightarrow> j < ?n \<Longrightarrow> ?R ! k ! j = 0"
    by (simp_all add: is_rref_def)
  from R have lenR: "length ?R = ?m" and rows: "\<And>k. k < ?m \<Longrightarrow> length (?R ! k) = ?n"
    by (simp_all add: is_matrix_def)
  have shape: "list_all (\<lambda>row. length row = ?n) ?R"
    using lenR rows by (simp add: list_all_length)
  have cols: "p < ?n \<and> filter (\<lambda>x. x \<noteq> 0) (column ?R p) = [1]" if "p \<in> set ?P" for p
  proof -
    from that obtain i where i: "i < length ?P" "?P ! i = p" by (auto simp: in_set_conv_nth)
    have "column ?R p = map (\<lambda>k. if k = i then 1 else 0) [0..<?m]"
      using col [OF i(1)] i(2) lenR by (simp add: column_nth_map)
    moreover have "i < ?m" using i(1) lP by simp
    ultimately show ?thesis using unit_column_filter pn [OF i(1)] i(2) by simp
  qed
  have zero: "list_all (\<lambda>x. x = 0) (?R ! k)" if "length ?P \<le> k \<and> k < ?m" for k
    using low [of k] rows [of k] that by (simp add: list_all_length)
  show ?thesis
    using lenR shape srt cols zero by (simp add: get_rref_def get_rank_def Matrix_rank_def)
qed

theorem rref_result_invariants_witness:
  "valid_matrix [[1, 2, 3], [4, 5, 6], [7, 8, 9]]
   \<and> get_rref [[1, 2, 3], [4, 5, 6], [7, 8, 9]] = ([[1, 0, - 1], [0, 1, 2], [0, 0, 0]], [0, 1])
   \<and> length (fst (get_rref [[1, 2, 3], [4, 5, 6], [7, 8, 9]])) = 3
   \<and> sorted_wrt (<) (snd (get_rref [[1, 2, 3], [4, 5, 6], [7, 8, 9]]))
   \<and> length (snd (get_rref [[1, 2, 3], [4, 5, 6], [7, 8, 9]])) = get_rank [[1, 2, 3], [4, 5, 6], [7, 8, 9]]
   \<and> filter (\<lambda>x. x \<noteq> 0) (column (fst (get_rref [[1, 2, 3], [4, 5, 6], [7, 8, 9]])) 1) = [1]
   \<and> list_all (\<lambda>x. x = 0) (fst (get_rref [[1, 2, 3], [4, 5, 6], [7, 8, 9]]) ! 2)"
proof -
  let ?A = "[[1, 2, 3], [4, 5, 6], [7, 8, 9]] :: matrix"
  have v: "valid_matrix ?A" by code_simp
  have e: "get_rref ?A = ([[1, 0, - 1], [0, 1, 2], [0, 0, 0]], [0, 1])" by code_simp
  note inv = rref_result_invariants [OF v]
  have p: "1 \<in> set (snd (get_rref ?A))" by (simp add: e)
  have k: "length (snd (get_rref ?A)) \<le> 2 \<and> 2 < length ?A" by (simp add: e)
  from inv p have c: "filter (\<lambda>x. x \<noteq> 0) (column (fst (get_rref ?A)) 1) = [1]" by blast
  from inv k have z: "list_all (\<lambda>x. x = 0) (fst (get_rref ?A) ! 2)" by blast
  from inv have l: "length (fst (get_rref ?A)) = 3" by simp
  from inv have s: "sorted_wrt (<) (snd (get_rref ?A))" by blast
  from inv have r: "length (snd (get_rref ?A)) = get_rank ?A" by blast
  from v e l s r c z show ?thesis by blast
qed

text \<open>
  C7: reducing the reduced matrix of a valid matrix returns it unchanged, with the same
  pivot column list.
\<close>

theorem rref_idempotent:
  assumes "valid_matrix A"
  shows "get_rref (fst (get_rref A)) = (fst (get_rref A), snd (get_rref A))"
proof -
  let ?R = "fst (Matrix_rref A)" and ?P = "snd (Matrix_rref A)"
  note rr = Matrix_rref_is_rref [OF assms]
  then have "is_matrix (length A) (ncols A) ?R" by (simp add: is_rref_def)
  moreover have "0 < length A" using assms by (simp add: valid_matrix_def Suc_le_eq)
  ultimately have nc: "ncols ?R = ncols A" by (rule is_matrix_ncols)
  have "rref_loop (ncols A) ?R 0 0 [] = (?R, ?P)"
    by (rule rref_loop_fixed [OF rr]) simp_all
  then show ?thesis by (simp add: get_rref_def Matrix_rref_def [of ?R] nc)
qed

theorem rref_idempotent_witness:
  "valid_matrix [[1, 2, 3], [4, 5, 6], [7, 8, 9]]
   \<and> get_rref (fst (get_rref [[1, 2, 3], [4, 5, 6], [7, 8, 9]]))
       = (fst (get_rref [[1, 2, 3], [4, 5, 6], [7, 8, 9]]), snd (get_rref [[1, 2, 3], [4, 5, 6], [7, 8, 9]]))
   \<and> get_rref [[1, 0, - 1], [0, 1, 2], [0, 0, 0]] = ([[1, 0, - 1], [0, 1, 2], [0, 0, 0]], [0, 1])"
proof -
  let ?A = "[[1, 2, 3], [4, 5, 6], [7, 8, 9]] :: matrix"
  have v: "valid_matrix ?A" by code_simp
  have e: "get_rref ?A = ([[1, 0, - 1], [0, 1, 2], [0, 0, 0]], [0, 1])" by code_simp
  from rref_idempotent [OF v] v e show ?thesis by simp
qed

text \<open>
  C6: for every valid matrix the column space basis is the list of the columns of the
  original matrix at the pivot column indices of its reduced form, in pivot order; the
  indices are column indices of the matrix and there are as many as the rank.
\<close>

theorem column_space_is_pivot_columns:
  assumes "valid_matrix A"
  shows "compute_column_space A = map (\<lambda>p. map (\<lambda>row. row ! p) A) (snd (get_rref A))
       \<and> list_all (\<lambda>p. p < ncols A) (snd (get_rref A))
       \<and> length (compute_column_space A) = get_rank A"
proof -
  from Matrix_rref_is_rref [OF assms]
  have "\<forall>i<length (snd (Matrix_rref A)). snd (Matrix_rref A) ! i < ncols A"
    by (simp add: is_rref_def)
  then show ?thesis
    by (simp add: compute_column_space_def Matrix_columnspace_def column_def get_rref_def
        get_rank_def Matrix_rank_def list_all_length)
qed


theorem column_space_is_pivot_columns_witness:
  "valid_matrix [[1, 2, 3], [4, 5, 6], [7, 8, 9]]
   \<and> snd (get_rref [[1, 2, 3], [4, 5, 6], [7, 8, 9]]) = [0, 1]
   \<and> compute_column_space [[1, 2, 3], [4, 5, 6], [7, 8, 9]] = [[1, 4, 7], [2, 5, 8]]
   \<and> length (compute_column_space [[1, 2, 3], [4, 5, 6], [7, 8, 9]]) = get_rank [[1, 2, 3], [4, 5, 6], [7, 8, 9]]"
proof -
  let ?A = "[[1, 2, 3], [4, 5, 6], [7, 8, 9]] :: matrix"
  have v: "valid_matrix ?A" by code_simp
  have e: "snd (get_rref ?A) = [0, 1]" by code_simp
  note cs = column_space_is_pivot_columns [OF v]
  from cs have a: "compute_column_space ?A = [[1, 4, 7], [2, 5, 8]]" by (simp add: e)
  from cs have b: "length (compute_column_space ?A) = get_rank ?A" by blast
  from v e a b show ?thesis by blast
qed

section \<open>The dimension check\<close>

subsection \<open>Coordinates\<close>

lemma vec_eqI: "(\<And>j. coord u j = coord v j) \<Longrightarrow> u = v"
  by (cases u, cases v) (simp add: fun_eq_iff)

lemma coord_zero [simp]: "coord 0 j = 0" by (simp add: zero_vec_def)
lemma coord_add [simp]: "coord (u + v) j = coord u j + coord v j" by (simp add: plus_vec_def)
lemma coord_diff [simp]: "coord (u - v) j = coord u j - coord v j" by (simp add: minus_vec_def)
lemma coord_scaleR [simp]: "coord (a *\<^sub>R u) j = a * coord u j" by (simp add: scaleR_vec_def)

lemma coord_sum: "coord (\<Sum>x\<in>S. f x) j = (\<Sum>x\<in>S. coord (f x) j)"
  by (induction S rule: infinite_finite_induct) simp_all

lemma coord_rowvec: "coord (rowvec xs) j = (if j < length xs then of_rat (xs ! j) else 0)"
  by (simp add: rowvec_def)

lemma rowvecs_nth: "k < length A \<Longrightarrow> rowvec (A ! k) \<in> rowvecs A"
  by (simp add: rowvecs_def)

lemma rowvecs_subsetI:
  assumes "\<And>k. k < length A \<Longrightarrow> rowvec (A ! k) \<in> V"
  shows "rowvecs A \<subseteq> V"
  using assms by (auto simp: rowvecs_def in_set_conv_nth)

lemma span_subset_trans: "X \<subseteq> span Y \<Longrightarrow> Y \<subseteq> span Z \<Longrightarrow> X \<subseteq> span (Z :: vec set)"
  using span_mono [of Y "span Z"] by (auto simp: span_span)

text \<open>The rows after one pivot step, as vectors.\<close>

lemma step_rowvec:
  assumes A: "is_matrix m n A" and r: "r < m" and p: "p < m" and k: "k < m"
  shows "rowvec (eliminate (normalize_row (swap_rows A r p) r c) r c ! k) =
           (if k = r then (1 / of_rat (A ! p ! c)) *\<^sub>R rowvec (A ! p)
            else rowvec (if k = p then A ! r else A ! k)
                 - (of_rat ((if k = p then A ! r else A ! k) ! c) / of_rat (A ! p ! c))
                     *\<^sub>R rowvec (A ! p))"
proof (rule vec_eqI)
  fix j
  let ?D = "eliminate (normalize_row (swap_rows A r p) r c) r c"
  from A have rows: "\<And>i. i < m \<Longrightarrow> length (A ! i) = n" by (simp add: is_matrix_def)
  from step_is_matrix [OF A r p, of c] k have lenD: "length (?D ! k) = n"
    by (simp add: is_matrix_def)
  show "coord (rowvec (?D ! k)) j =
          coord (if k = r then (1 / of_rat (A ! p ! c)) *\<^sub>R rowvec (A ! p)
            else rowvec (if k = p then A ! r else A ! k)
                 - (of_rat ((if k = p then A ! r else A ! k) ! c) / of_rat (A ! p ! c))
                     *\<^sub>R rowvec (A ! p)) j"
  proof (cases "j < n")
    case True
    from step_entry [OF A r p k True, of c] show ?thesis
      using True lenD rows [OF p] rows [OF r] rows [OF k]
      by (simp add: coord_rowvec of_rat_divide of_rat_diff of_rat_mult)
  next
    case False
    then show ?thesis
      using lenD rows [OF p] rows [OF r] rows [OF k] by (simp add: coord_rowvec)
  qed
qed

lemma step_rows_in_span:
  assumes A: "is_matrix m n A" and r: "r < m" and p: "p < m"
  shows "rowvecs (eliminate (normalize_row (swap_rows A r p) r c) r c) \<subseteq> span (rowvecs A)"
proof (rule rowvecs_subsetI)
  fix k assume "k < length (eliminate (normalize_row (swap_rows A r p) r c) r c)"
  then have k: "k < m" using A by (simp add: is_matrix_def)
  from A have len: "length A = m" by (simp add: is_matrix_def)
  have in_span: "rowvec (A ! i) \<in> span (rowvecs A)" if "i < m" for i
    using that len by (simp add: span_base rowvecs_nth)
  show "rowvec (eliminate (normalize_row (swap_rows A r p) r c) r c ! k) \<in> span (rowvecs A)"
    unfolding step_rowvec [OF A r p k]
    using in_span [OF p] in_span [OF r] in_span [OF k]
    by (auto intro!: span_scale span_diff)
qed

lemma step_rows_span_back:
  assumes A: "is_matrix m n A" and r: "r < m" and p: "p < m" and nz: "A ! p ! c \<noteq> 0"
  shows "rowvecs A \<subseteq> span (rowvecs (eliminate (normalize_row (swap_rows A r p) r c) r c))"
proof (rule rowvecs_subsetI)
  let ?D = "eliminate (normalize_row (swap_rows A r p) r c) r c"
  let ?a = "of_rat (A ! p ! c) :: real"
  fix k assume "k < length A"
  then have k: "k < m" using A by (simp add: is_matrix_def)
  have lenD: "length ?D = m" using A by (simp add: is_matrix_def)
  have a: "?a \<noteq> 0" using nz by simp
  have D: "rowvec (?D ! i) \<in> span (rowvecs ?D)" if "i < m" for i
    using that lenD by (simp add: span_base rowvecs_nth)
  have Ap: "rowvec (A ! p) = ?a *\<^sub>R rowvec (?D ! r)"
    using a by (simp add: step_rowvec [OF A r p r])
  then have Ap_in: "rowvec (A ! p) \<in> span (rowvecs ?D)"
    using D [OF r] by (simp add: span_scale)
  have other: "rowvec (if i = p then A ! r else A ! i) \<in> span (rowvecs ?D)" if "i < m" "i \<noteq> r" for i
  proof -
    have "rowvec (if i = p then A ! r else A ! i) =
        rowvec (?D ! i) + (of_rat ((if i = p then A ! r else A ! i) ! c) / ?a) *\<^sub>R rowvec (A ! p)"
      using that by (simp add: step_rowvec [OF A r p that(1)])
    then show ?thesis using D [OF that(1)] Ap_in by (simp add: span_add span_scale)
  qed
  show "rowvec (A ! k) \<in> span (rowvecs ?D)"
  proof (cases "k = p")
    case True
    then show ?thesis using Ap_in by simp
  next
    case kp: False
    show ?thesis
    proof (cases "k = r")
      case True
      with kp have "p \<noteq> r" by simp
      from other [OF p this] True show ?thesis by simp
    next
      case False
      from other [OF k False] kp show ?thesis by simp
    qed
  qed
qed

lemma rref_loop_rowspace:
  "is_matrix m n A \<Longrightarrow>
     rowvecs A \<subseteq> span (rowvecs (fst (rref_loop n A r c pivs)))
     \<and> rowvecs (fst (rref_loop n A r c pivs)) \<subseteq> span (rowvecs A)"
proof (induction n A r c pivs rule: rref_loop.induct)
  case (1 n A r c pivs)
  from "1.prems" have len: "length A = m" by (simp add: is_matrix_def)
  show ?case
  proof (cases "c < n \<and> r < length A")
    case False
    then have "rref_loop n A r c pivs = (A, pivs)" by auto
    then show ?thesis by (simp add: span_superset)
  next
    case True
    show ?thesis
    proof (cases "find_pivot A r c")
      case None
      from "1.IH"(1) [OF True None "1.prems"] True None show ?thesis by simp
    next
      case (Some p)
      let ?D = "eliminate (normalize_row (swap_rows A r p) r c) r c"
      from find_pivot_Some [OF Some] len have p: "p < m" and nz: "A ! p ! c \<noteq> 0" by simp_all
      from True len have r: "r < m" by simp
      have D: "is_matrix m n ?D" by (rule step_is_matrix [OF "1.prems" r p])
      note ih = "1.IH"(2) [OF True Some D]
      have eq: "rref_loop n A r c pivs = rref_loop n ?D (r + 1) (c + 1) (pivs @ [c])"
        using True Some by simp
      have "rowvecs A \<subseteq> span (rowvecs (fst (rref_loop n ?D (r + 1) (c + 1) (pivs @ [c]))))"
        by (rule span_subset_trans [OF step_rows_span_back [OF "1.prems" r p nz] conjunct1 [OF ih]])
      moreover have "rowvecs (fst (rref_loop n ?D (r + 1) (c + 1) (pivs @ [c]))) \<subseteq> span (rowvecs A)"
        by (rule span_subset_trans [OF conjunct2 [OF ih] step_rows_in_span [OF "1.prems" r p]])
      ultimately show ?thesis unfolding eq by simp
    qed
  qed
qed


text \<open>The pivot rows of a reduced matrix are distinct and linearly independent.\<close>

lemma pivot_row_coord:
  assumes R: "is_rref m n R P" and i: "i < length P" and k: "k < m"
  shows "coord (rowvec (R ! k)) (P ! i) = (if k = i then 1 else 0)"
proof -
  from R i have "P ! i < n" by (simp add: is_rref_def)
  moreover from R k have "length (R ! k) = n" by (simp add: is_rref_def is_matrix_def)
  moreover from R i k have "R ! k ! (P ! i) = (if k = i then 1 else 0)" by (simp add: is_rref_def)
  ultimately show ?thesis by (simp add: coord_rowvec)
qed

lemma pivot_rows_inj:
  assumes R: "is_rref m n R P"
  shows "inj_on (\<lambda>i. rowvec (R ! i)) {..<length P}"
proof (rule inj_onI)
  fix i k assume i: "i \<in> {..<length P}" and k: "k \<in> {..<length P}"
    and eq: "rowvec (R ! i) = rowvec (R ! k)"
  from R have "length P \<le> m" by (simp add: is_rref_def)
  with i k have im: "i < m" and km: "k < m" by simp_all
  from i have il: "i < length P" by simp
  have "coord (rowvec (R ! i)) (P ! i) = coord (rowvec (R ! k)) (P ! i)" using eq by simp
  then show "i = k"
    using pivot_row_coord [OF R il im] pivot_row_coord [OF R il km] by (simp split: if_splits)
qed

lemma pivot_rows_independent:
  assumes R: "is_rref m n R P"
  shows "independent ((\<lambda>i. rowvec (R ! i)) ` {..<length P})"
proof (rule independent_if_scalars_zero)
  show "finite ((\<lambda>i. rowvec (R ! i)) ` {..<length P})" by simp
next
  fix f :: "vec \<Rightarrow> real" and x
  assume sum0: "(\<Sum>x\<in>(\<lambda>i. rowvec (R ! i)) ` {..<length P}. f x *\<^sub>R x) = 0"
    and x: "x \<in> (\<lambda>i. rowvec (R ! i)) ` {..<length P}"
  from x obtain i0 where i0: "i0 < length P" and xi: "x = rowvec (R ! i0)" by auto
  from R have lP: "length P \<le> m" by (simp add: is_rref_def)
  have "(\<Sum>i<length P. f (rowvec (R ! i)) *\<^sub>R rowvec (R ! i)) = 0"
    using sum0 by (simp add: sum.reindex [OF pivot_rows_inj [OF R]])
  then have "coord (\<Sum>i<length P. f (rowvec (R ! i)) *\<^sub>R rowvec (R ! i)) (P ! i0) = 0"
    by simp
  then have "(\<Sum>i<length P. f (rowvec (R ! i)) * coord (rowvec (R ! i)) (P ! i0)) = 0"
    by (simp add: coord_sum)
  moreover have "(\<Sum>i<length P. f (rowvec (R ! i)) * coord (rowvec (R ! i)) (P ! i0))
      = (\<Sum>i<length P. if i = i0 then f (rowvec (R ! i0)) else 0)"
  proof (rule sum.cong [OF refl])
    fix i assume "i \<in> {..<length P}"
    then have "i < m" using lP by simp
    from pivot_row_coord [OF R i0 this]
    show "f (rowvec (R ! i)) * coord (rowvec (R ! i)) (P ! i0)
        = (if i = i0 then f (rowvec (R ! i0)) else 0)" by simp
  qed
  ultimately have "f (rowvec (R ! i0)) = 0" using i0 by simp
  then show "f x = 0" using xi by simp
qed

text \<open>
  Every row of the input is the combination of the pivot rows of the reduced matrix
  whose coefficients are the row's entries in the pivot columns.
\<close>

lemma rank_factorisation:
  assumes A: "is_matrix m n A"
    and R: "is_rref m n R P"
    and sp: "rowvecs A \<subseteq> span (rowvecs R)"
    and k: "k < m" and j: "j < n"
  shows "(of_rat (A ! k ! j) :: real)
           = (\<Sum>i<length P. of_rat (A ! k ! (P ! i)) * of_rat (R ! i ! j))"
proof -
  let ?g = "\<lambda>i. rowvec (R ! i)"
  let ?Top = "?g ` {..<length P}"
  from R have lenR: "length R = m" and rowsR: "\<And>i. i < m \<Longrightarrow> length (R ! i) = n"
    and lP: "length P \<le> m" and pn: "\<And>i. i < length P \<Longrightarrow> P ! i < n"
    and low: "\<And>i j. i < m \<Longrightarrow> length P \<le> i \<Longrightarrow> j < n \<Longrightarrow> R ! i ! j = 0"
    by (simp_all add: is_rref_def is_matrix_def)
  from A have lenA: "length A = m" and rowsA: "\<And>i. i < m \<Longrightarrow> length (A ! i) = n"
    by (simp_all add: is_matrix_def)
  have "rowvecs R \<subseteq> span ?Top"
  proof (rule rowvecs_subsetI)
    fix i assume "i < length R"
    then have im: "i < m" using lenR by simp
    show "rowvec (R ! i) \<in> span ?Top"
    proof (cases "i < length P")
      case True
      then show ?thesis by (simp add: span_base)
    next
      case False
      have "rowvec (R ! i) = 0"
        by (rule vec_eqI) (use False im low rowsR in \<open>simp add: coord_rowvec\<close>)
      then show ?thesis by (simp add: span_zero)
    qed
  qed
  with sp have "rowvecs A \<subseteq> span ?Top" by (rule span_subset_trans)
  then have "rowvec (A ! k) \<in> span ?Top" using k lenA by (auto simp: rowvecs_nth)
  then obtain u where u: "rowvec (A ! k) = (\<Sum>v\<in>?Top. u v *\<^sub>R v)"
    by (auto simp: span_finite)
  then have u': "rowvec (A ! k) = (\<Sum>i<length P. u (?g i) *\<^sub>R ?g i)"
    by (simp add: sum.reindex [OF pivot_rows_inj [OF R]])
  have ent: "of_rat (A ! k ! j') = (\<Sum>i<length P. u (?g i) * of_rat (R ! i ! j'))" if "j' < n" for j'
  proof -
    have "coord (rowvec (A ! k)) j' = (\<Sum>i<length P. u (?g i) * coord (?g i) j')"
      by (subst u') (simp add: coord_sum)
    moreover have "(\<Sum>i<length P. u (?g i) * coord (?g i) j')
        = (\<Sum>i<length P. u (?g i) * of_rat (R ! i ! j'))"
      by (rule sum.cong [OF refl]) (use that lP rowsR in \<open>simp add: coord_rowvec\<close>)
    ultimately show ?thesis using that rowsA [OF k] by (simp add: coord_rowvec)
  qed
  have coef: "u (?g i0) = of_rat (A ! k ! (P ! i0))" if "i0 < length P" for i0
  proof -
    have "(\<Sum>i<length P. u (?g i) * of_rat (R ! i ! (P ! i0)))
        = (\<Sum>i<length P. if i = i0 then u (?g i0) else 0)"
    proof (rule sum.cong [OF refl])
      fix i assume "i \<in> {..<length P}"
      then have "i < m" using lP by simp
      with R that have "R ! i ! (P ! i0) = (if i = i0 then 1 else 0)" by (simp add: is_rref_def)
      then show "u (?g i) * of_rat (R ! i ! (P ! i0)) = (if i = i0 then u (?g i0) else 0)"
        by simp
    qed
    with ent [OF pn [OF that]] that show ?thesis by simp
  qed
  show ?thesis
    unfolding ent [OF j] by (rule sum.cong [OF refl]) (simp add: coef)
qed


text \<open>The transpose.\<close>

lemma column_nth: "k < length A \<Longrightarrow> column A j ! k = A ! k ! j"
  by (simp add: column_def)

lemma Matrix_T_is_matrix:
  assumes "is_matrix m n A" "0 < m"
  shows "is_matrix n m (Matrix_T A)"
  using assms is_matrix_ncols [OF assms]
  by (simp add: is_matrix_def Matrix_T_def column_def)

lemma Matrix_T_nth:
  assumes "is_matrix m n A" "0 < m" "j < n"
  shows "Matrix_T A ! j = column A j"
  using assms is_matrix_ncols [OF assms(1,2)] by (simp add: Matrix_T_def)

lemma Matrix_T_T:
  assumes A: "is_matrix m n A" and m: "0 < m" and n: "0 < n"
  shows "Matrix_T (Matrix_T A) = A"
proof (rule matrix_eqI [OF Matrix_T_is_matrix [OF Matrix_T_is_matrix [OF A m] n] A])
  fix k j assume k: "k < m" and j: "j < n"
  note B = Matrix_T_is_matrix [OF A m]
  from A have len: "length A = m" by (simp add: is_matrix_def)
  from B have lenB: "length (Matrix_T A) = n" by (simp add: is_matrix_def)
  show "Matrix_T (Matrix_T A) ! k ! j = A ! k ! j"
    using Matrix_T_nth [OF B n k] Matrix_T_nth [OF A m j] k j len lenB
    by (simp add: column_nth)
qed

text \<open>The reduction of the transpose has no more pivots than the reduction of the matrix.\<close>

lemma pivots_transpose_le:
  assumes A: "is_matrix m n A" and m: "0 < m" and n: "0 < n"
  shows "length (snd (Matrix_rref (Matrix_T A))) \<le> length (snd (Matrix_rref A))"
proof -
  let ?B = "Matrix_T A"
  let ?R = "fst (Matrix_rref A)" and ?P = "snd (Matrix_rref A)"
  let ?S = "fst (Matrix_rref ?B)" and ?Q = "snd (Matrix_rref ?B)"
  note B = Matrix_T_is_matrix [OF A m]
  from A have lenA: "length A = m" and rowsA: "\<And>i. i < m \<Longrightarrow> length (A ! i) = n"
    by (simp_all add: is_matrix_def)
  from B have lenB: "length ?B = n" and rowsB: "\<And>i. i < n \<Longrightarrow> length (?B ! i) = m"
    by (simp_all add: is_matrix_def)
  have ncA: "ncols A = n" by (rule is_matrix_ncols [OF A m])
  have ncB: "ncols ?B = m" by (rule is_matrix_ncols [OF B n])
  have R: "is_rref m n ?R ?P"
    unfolding Matrix_rref_def ncA
    by (rule rref_loop_is_rref [OF inv_init [OF A] lenA])
  have S: "is_rref n m ?S ?Q"
    unfolding Matrix_rref_def ncB
    by (rule rref_loop_is_rref [OF inv_init [OF B] lenB])
  have spA: "rowvecs A \<subseteq> span (rowvecs ?R)"
    unfolding Matrix_rref_def ncA using rref_loop_rowspace [OF A] by blast
  have spS: "rowvecs ?S \<subseteq> span (rowvecs ?B)"
    unfolding Matrix_rref_def ncB using rref_loop_rowspace [OF B] by blast
  from R have pn: "\<And>i. i < length ?P \<Longrightarrow> ?P ! i < n" by (simp add: is_rref_def)
  let ?T = "(\<lambda>i. rowvec (?B ! (?P ! i))) ` {..<length ?P}"
  have Bent: "coord (rowvec (?B ! j)) k = (if k < m then of_rat (A ! k ! j) else 0)" if "j < n" for j k
    using that rowsB [OF that] lenA Matrix_T_nth [OF A m that]
    by (simp add: coord_rowvec column_nth)
  have BT: "rowvecs ?B \<subseteq> span ?T"
  proof (rule rowvecs_subsetI)
    fix j assume "j < length ?B"
    then have j: "j < n" using lenB by simp
    have "rowvec (?B ! j) = (\<Sum>i<length ?P. of_rat (?R ! i ! j) *\<^sub>R rowvec (?B ! (?P ! i)))"
    proof (rule vec_eqI)
      fix k
      show "coord (rowvec (?B ! j)) k
          = coord (\<Sum>i<length ?P. of_rat (?R ! i ! j) *\<^sub>R rowvec (?B ! (?P ! i))) k"
      proof (cases "k < m")
        case True
        have "(\<Sum>i<length ?P. of_rat (?R ! i ! j) * coord (rowvec (?B ! (?P ! i))) k)
            = (\<Sum>i<length ?P. of_rat (A ! k ! (?P ! i)) * of_rat (?R ! i ! j))"
          by (rule sum.cong [OF refl]) (use True pn in \<open>simp add: Bent\<close>)
        then show ?thesis
          using rank_factorisation [OF A R spA True j] True j by (simp add: coord_sum Bent)
      next
        case False
        have "(\<Sum>i<length ?P. of_rat (?R ! i ! j) * coord (rowvec (?B ! (?P ! i))) k) = 0"
          by (rule sum.neutral) (use False pn in \<open>simp add: Bent\<close>)
        then show ?thesis using False j by (simp add: coord_sum Bent)
      qed
    qed
    moreover have "(\<Sum>i<length ?P. of_rat (?R ! i ! j) *\<^sub>R rowvec (?B ! (?P ! i))) \<in> span ?T"
      by (rule span_sum) (simp add: span_scale span_base)
    ultimately show "rowvec (?B ! j) \<in> span ?T" by simp
  qed
  let ?I = "(\<lambda>i. rowvec (?S ! i)) ` {..<length ?Q}"
  from S have lQ: "length ?Q \<le> n" and lenS: "length ?S = n"
    by (simp_all add: is_rref_def is_matrix_def)
  have "?I \<subseteq> rowvecs ?S" using lQ lenS by (auto simp: rowvecs_def)
  with spS have "?I \<subseteq> span (rowvecs ?B)" by blast
  then have IT: "?I \<subseteq> span ?T" using BT by (rule span_subset_trans)
  have "finite ?T" by simp
  from independent_span_bound [OF this pivot_rows_independent [OF S] IT]
  have "card ?I \<le> card ?T" by simp
  moreover have "card ?I = length ?Q"
    by (simp add: card_image [OF pivot_rows_inj [OF S]])
  moreover have "card ?T \<le> length ?P"
    using card_image_le [of "{..<length ?P}" "\<lambda>i. rowvec (?B ! (?P ! i))"] by simp
  ultimately show ?thesis by simp
qed

lemma pivots_transpose:
  assumes "valid_matrix A"
  shows "length (snd (Matrix_rref (Matrix_T A))) = length (snd (Matrix_rref A))"
proof -
  from assms have A: "is_matrix (length A) (ncols A) A" by (rule valid_is_matrix)
  from assms have m: "0 < length A" and n: "0 < ncols A" by (simp_all add: valid_matrix_def Suc_le_eq)
  note B = Matrix_T_is_matrix [OF A m]
  from pivots_transpose_le [OF B n m] Matrix_T_T [OF A m n]
  have "length (snd (Matrix_rref A)) \<le> length (snd (Matrix_rref (Matrix_T A)))" by simp
  with pivots_transpose_le [OF A m n] show ?thesis by simp
qed

lemma free_columns_count:
  assumes "sorted_wrt (<) (P :: nat list)" "\<forall>i<length P. P ! i < n"
  shows "length P \<le> n \<and> length (filter (\<lambda>j. j \<notin> set P) [0..<n]) = n - length P"
proof -
  from assms(1) have d: "distinct P" by (simp add: strict_sorted_iff)
  from assms(2) have sub: "set P \<subseteq> {..<n}" by (auto simp: in_set_conv_nth)
  have "length (filter (\<lambda>j. j \<in> set P) [0..<n]) = card ({j. j \<in> set P} \<inter> set [0..<n])"
    by (rule distinct_length_filter) simp
  also have "{j. j \<in> set P} \<inter> set [0..<n] = set P" using sub by auto
  also have "card (set P) = length P" using d by (rule distinct_card)
  finally have in_count: "length (filter (\<lambda>j. j \<in> set P) [0..<n]) = length P" .
  have "length (filter (\<lambda>j. j \<in> set P) [0..<n]) + length (filter (\<lambda>j. \<not> j \<in> set P) [0..<n])
      = length [0..<n]" by (rule sum_length_filter_compl)
  with in_count show ?thesis by simp
qed

lemma computed_dimensions:
  assumes v: "valid_matrix A"
  shows "dimensions_valid (fst (get_dimensions A)) (snd (get_dimensions A)) (get_rank A)
           (length (compute_column_space A)) (length (compute_row_space A))
           (length (compute_null_space A)) (length (compute_left_null_space A))"
proof -
  let ?m = "length A" and ?n = "ncols A"
  let ?R = "fst (Matrix_rref A)" and ?P = "snd (Matrix_rref A)"
  let ?B = "Matrix_T A"
  let ?Q = "snd (Matrix_rref ?B)"
  from v have A: "is_matrix ?m ?n A" by (rule valid_is_matrix)
  from v have m: "0 < ?m" and n: "0 < ?n" by (simp_all add: valid_matrix_def Suc_le_eq)
  note R = Matrix_rref_is_rref [OF v]
  then have lP: "length ?P \<le> ?m" and lenR: "length ?R = ?m"
    and srt: "sorted_wrt (<) ?P" and pn: "\<forall>i<length ?P. ?P ! i < ?n"
    by (simp_all add: is_rref_def is_matrix_def)
  note B = Matrix_T_is_matrix [OF A m]
  have ncB: "ncols ?B = ?m" by (rule is_matrix_ncols [OF B n])
  from B have lenB: "length ?B = ?n" by (simp add: is_matrix_def)
  have S: "is_rref ?n ?m (fst (Matrix_rref ?B)) ?Q"
    unfolding Matrix_rref_def ncB
    by (rule rref_loop_is_rref [OF inv_init [OF B] lenB])
  then have srtQ: "sorted_wrt (<) ?Q" and qn: "\<forall>i<length ?Q. ?Q ! i < ?m"
    by (simp_all add: is_rref_def)
  note fc = free_columns_count [OF srt pn]
  note fcQ = free_columns_count [OF srtQ qn]
  have col: "length (compute_column_space A) = length ?P"
    by (simp add: compute_column_space_def Matrix_columnspace_def)
  have row: "length (compute_row_space A) = length ?P"
    using lP lenR by (simp add: compute_row_space_def Matrix_rowspace_def Matrix_rank_def)
  have null: "length (compute_null_space A) = ?n - length ?P"
    using fc by (simp add: compute_null_space_def Matrix_nullspace_def Let_def)
  have left: "length (compute_left_null_space A) = ?m - length ?P"
    using fcQ pivots_transpose [OF v]
    by (simp add: compute_left_null_space_def Matrix_nullspace_def Let_def ncB)
  show ?thesis
    using col row null left fc lP
    by (simp add: dimensions_valid_def get_dimensions_def Matrix_shape_def get_rank_def
        Matrix_rank_def of_nat_diff)
qed

text \<open>
  C4: the claim says that the computed dimensions satisfy the rank-nullity identities
  and that the \<open>valid\<close> flag of \<open>dimension_check\<close> is therefore true for every valid
  input. For every valid matrix the dimensions computed in lines 164 to 171 do pass the
  cross-check of lines 213 to 216, but the dictionary that would carry the flag is
  never built: \<open>compute_all_spaces\<close> raises before it reaches \<open>dimension_check\<close>.
\<close>

theorem dimension_check_not_delivered:
  assumes "valid_matrix A"
  shows "dimensions_valid (fst (get_dimensions A)) (snd (get_dimensions A)) (get_rank A)
           (length (compute_column_space A)) (length (compute_row_space A))
           (length (compute_null_space A)) (length (compute_left_null_space A))
       \<and> compute_all_spaces key_eq memo A = (Inl TypeError_unhashable, memo)"
  by (rule conjI [OF computed_dimensions [OF assms]])
     (simp add: compute_all_spaces_def tolist_def Let_def)

theorem dimension_check_not_delivered_witness:
  "validate_and_parse (\<lambda>x. 0) (\<lambda>s. None)
      (JList [JList [JInt 1, JInt 2, JInt 3], JList [JInt 4, JInt 5, JInt 6]])
     = Inr [[1, 2, 3], [4, 5, 6]]
   \<and> valid_matrix [[1, 2, 3], [4, 5, 6]]
   \<and> get_dimensions [[1, 2, 3], [4, 5, 6]] = (2, 3)
   \<and> dimensions_valid 2 3 (get_rank [[1, 2, 3], [4, 5, 6]])
        (length (compute_column_space [[1, 2, 3], [4, 5, 6]]))
        (length (compute_row_space [[1, 2, 3], [4, 5, 6]]))
        (length (compute_null_space [[1, 2, 3], [4, 5, 6]]))
        (length (compute_left_null_space [[1, 2, 3], [4, 5, 6]]))
   \<and> compute_all_spaces sample_key_eq [] [[1, 2, 3], [4, 5, 6]]
       = (Inl TypeError_unhashable, [])"
proof -
  let ?A = "[[1, 2, 3], [4, 5, 6]] :: matrix"
  have a: "validate_and_parse (\<lambda>x. 0) (\<lambda>s. None)
      (JList [JList [JInt 1, JInt 2, JInt 3], JList [JInt 4, JInt 5, JInt 6]]) = Inr ?A"
    by (simp add: validate_and_parse_def MAX_DIMENSION_def)
  have v: "valid_matrix ?A" by (rule parsed_matrix_valid [OF a])
  have d: "get_dimensions ?A = (2, 3)"
    by (simp add: get_dimensions_def Matrix_shape_def ncols_def)
  note t = dimension_check_not_delivered [OF v, of sample_key_eq "[]"]
  from t d have b: "dimensions_valid 2 3 (get_rank ?A)
        (length (compute_column_space ?A)) (length (compute_row_space ?A))
        (length (compute_null_space ?A)) (length (compute_left_null_space ?A))" by simp
  from t have c: "compute_all_spaces sample_key_eq [] ?A = (Inl TypeError_unhashable, [])"
    by blast
  from a v d b c show ?thesis by blast
qed

section \<open>The cache and the handler\<close>

lemma find_filter_keep:
  "find P xs = Some e \<Longrightarrow> Q e \<Longrightarrow> find P (filter Q xs) = Some e"
  by (induction xs) (auto split: if_splits)

lemma find_append_last:
  "\<forall>x \<in> set xs. \<not> P x \<Longrightarrow> P e \<Longrightarrow> find P (xs @ [e]) = Some e"
  by (induction xs) auto

lemma setitem_find:
  assumes "0 < maxsize c"
  shows "find (\<lambda>e. fst e = k) (entries (cache_setitem c t k v)) = Some (k, v, t)"
proof -
  define xs where "xs = filter (\<lambda>e. fst e \<noteq> k) (entries (purge c t))"
  have len: "length (xs @ [(k, v, t)]) - maxsize c \<le> length xs"
    using assms by simp
  have "entries (cache_setitem c t k v) = drop (length (xs @ [(k, v, t)]) - maxsize c) xs @ [(k, v, t)]"
    using len by (simp add: cache_setitem_def Let_def xs_def purge_def)
  moreover have "\<forall>x \<in> set (drop (length (xs @ [(k, v, t)]) - maxsize c) xs). \<not> fst x = k"
    by (auto simp: xs_def dest: in_set_dropD)
  then have "find (\<lambda>e. fst e = k)
      (drop (length (xs @ [(k, v, t)]) - maxsize c) xs @ [(k, v, t)]) = Some (k, v, t)"
    by (rule find_append_last) simp
  ultimately show ?thesis by simp
qed

lemma setitem_ttl: "ttl (cache_setitem c t k v) = ttl c"
  by (simp add: cache_setitem_def Let_def purge_def)

lemma contains_after_setitem:
  "0 < maxsize c \<Longrightarrow> cache_contains (cache_setitem c t k v) t' k = (t' \<le> t + ttl c)"
  by (auto simp: cache_contains_def setitem_find expired_def setitem_ttl)

lemma getitem_after_setitem:
  assumes "0 < maxsize c" "t' \<le> t + ttl c"
  shows "fst (cache_getitem (cache_setitem c t k v) t' k) = Some v"
proof -
  let ?c = "cache_setitem c t k v"
  have "\<not> expired ?c t' (k, v, t)" using assms by (simp add: expired_def setitem_ttl)
  then have "find (\<lambda>e. fst e = k) (entries (purge ?c t')) = Some (k, v, t)"
    using setitem_find [OF assms(1)] by (simp add: purge_def find_filter_keep)
  then show ?thesis by (simp add: cache_getitem_def Let_def)
qed

lemma contains_clear: "cache_contains (cache_clear c) t k = False"
  by (simp add: cache_contains_def cache_clear_def)

lemma getitem_clear: "fst (cache_getitem (cache_clear c) t k) = None"
  by (simp add: cache_getitem_def cache_clear_def purge_def Let_def)

text \<open>
  C5: when the handler stores a result under a fingerprint (capacity at least 1) and a
  request with that fingerprint arrives before the entry is older than the
  time-to-live, the request returns the stored reference, and the dictionary behind it
  is the stored result with \<open>cached\<close> set to \<open>True\<close>; after \<open>clear_cache\<close> the
  membership test fails at any time and the same request takes the miss branch.
\<close>

theorem cache_round_trip:
  assumes cap: "0 < maxsize (computation_cache st)"
    and key: "generate_cache_key lib input_matrix = k"
    and fresh: "t_in \<le> t + ttl (computation_cache st)" "t_op \<le> t + ttl (computation_cache st)"
  shows "fst (compute_subspaces lib t_in t_op (snd (store_result t k result st)) input_matrix)
           = Returned (fst (store_result t k result st))
       \<and> heap (snd (compute_subspaces lib t_in t_op (snd (store_result t k result st)) input_matrix))
            (fst (store_result t k result st)) = Some (with_cached True result)
       \<and> \<not> cache_contains (computation_cache (clear_cache
             (snd (compute_subspaces lib t_in t_op (snd (store_result t k result st)) input_matrix))))
             t1 k
       \<and> compute_subspaces lib t1 t2 (clear_cache
             (snd (compute_subspaces lib t_in t_op (snd (store_result t k result st)) input_matrix)))
             input_matrix
           = compute_miss lib t2 k (clear_cache
               (snd (compute_subspaces lib t_in t_op (snd (store_result t k result st)) input_matrix)))
               input_matrix"
proof -
  let ?ref = "next_ref st"
  let ?c = "cache_setitem (computation_cache st) t k ?ref"
  let ?st1 = "snd (store_result t k result st)"
  have c1: "computation_cache ?st1 = ?c" and h1: "heap ?st1 ?ref = Some (with_cached False result)"
    and r1: "fst (store_result t k result st) = ?ref"
    by (simp_all add: store_result_def)
  have hit: "cache_contains ?c t_in k" using cap fresh by (simp add: contains_after_setitem)
  have get: "fst (cache_getitem ?c t_op k) = Some ?ref"
    using cap fresh by (simp add: getitem_after_setitem)
  obtain c' where c': "cache_getitem ?c t_op k = (Some ?ref, c')"
    using get by (cases "cache_getitem ?c t_op k") simp
  have upd: "(with_cached False result)\<lparr>cached := True\<rparr> = with_cached True result"
    by (simp add: with_cached_def computation_result.extend_def response.fields_def)
  have run: "compute_subspaces lib t_in t_op ?st1 input_matrix
      = (Returned ?ref, ?st1\<lparr>computation_cache := c',
            heap := (heap ?st1)(?ref \<mapsto> with_cached True result)\<rparr>)"
    using hit c' key c1 h1 upd by (simp add: compute_subspaces_def compute_hit_def Let_def)
  let ?st2 = "snd (compute_subspaces lib t_in t_op ?st1 input_matrix)"
  have f1: "fst (compute_subspaces lib t_in t_op ?st1 input_matrix) = Returned ?ref"
    by (simp add: run)
  have f2: "heap ?st2 ?ref = Some (with_cached True result)"
    by (simp add: run)
  have f3: "\<not> cache_contains (computation_cache (clear_cache ?st2)) t1 k"
    by (simp add: clear_cache_def contains_clear)
  have f4: "compute_subspaces lib t1 t2 (clear_cache ?st2) input_matrix
      = compute_miss lib t2 k (clear_cache ?st2) input_matrix"
    using key f3 by (simp add: compute_subspaces_def Let_def)
  show ?thesis unfolding r1 using f1 f2 f3 f4 by blast
qed

theorem cache_round_trip_witness:
  "0 < maxsize (computation_cache (sample_state []))
   \<and> generate_cache_key sample_library (JList [JList [JInt 1]]) = ''[[1]]''
   \<and> (10::nat) \<le> 10 + ttl (computation_cache (sample_state []))
   \<and> fst (compute_subspaces sample_library 10 10
            (snd (store_result 10 ''[[1]]'' sample_result (sample_state [])))
            (JList [JList [JInt 1]]))
        = Returned (fst (store_result 10 ''[[1]]'' sample_result (sample_state [])))
   \<and> heap (snd (compute_subspaces sample_library 10 10
            (snd (store_result 10 ''[[1]]'' sample_result (sample_state [])))
            (JList [JList [JInt 1]])))
          (fst (store_result 10 ''[[1]]'' sample_result (sample_state [])))
        = Some (with_cached True sample_result)
   \<and> \<not> cache_contains (computation_cache (clear_cache (snd (compute_subspaces sample_library 10 10
            (snd (store_result 10 ''[[1]]'' sample_result (sample_state [])))
            (JList [JList [JInt 1]]))))) 10 ''[[1]]''"
proof -
  have h1: "0 < maxsize (computation_cache (sample_state []))"
    by (simp add: sample_state_def)
  have h3: "generate_cache_key sample_library (JList [JList [JInt 1]]) = ''[[1]]''"
    by (simp add: generate_cache_key_def sample_library_def)
  have h4: "(10::nat) \<le> 10 + ttl (computation_cache (sample_state []))"
    by simp
  from cache_round_trip [OF h1 h3 h4 h4, where ?t1.0 = 10 and result = sample_result] h1 h3 h4
  show ?thesis by blast
qed











end
